theory Spec2Isabelle
  imports Complex_Main "HOL-Library.Sublist"
begin

section \<open>MatchEngine: \<open>src/utils/destinationMatcher.js\<close>\<close>

subsection \<open>Strings\<close>

text \<open>
  A JavaScript string is a sequence of UTF-16 code units and \<open>length\<close> counts them.
  The reference table and the strings of FetchCache are modelled as \<^typ>\<open>string\<close>, one
  \<^typ>\<open>char\<close> per code unit, which covers the code units below 256 (ASCII and Latin-1).
  On that range \<open>toLowerCase\<close> works unit by unit: \<open>A\<close>..\<open>Z\<close> and the Latin-1
  capitals \<open>U+00C0\<close>..\<open>U+00DE\<close> (without the multiplication sign \<open>U+00D7\<close>) move up by
  32, every other unit stays. Beyond that range \<open>toLowerCase\<close> can change the length of
  a string; \<open>levenshteinDistance\<close> and the body of \<open>calculateSimilarity\<close> are therefore
  defined for sequences of any kind of unit, and for any lower-casing function.
\<close>

definition lower_char :: "char \<Rightarrow> char" where
  "lower_char c =
     (let n = (of_char c :: nat)
      in if (65 \<le> n \<and> n \<le> 90) \<or> (192 \<le> n \<and> n \<le> 222 \<and> n \<noteq> 215)
         then char_of (n + 32) else c)"

definition toLowerCase :: "string \<Rightarrow> string" where
  "toLowerCase s = map lower_char s"

text \<open>
  \<open>trim\<close> removes white space and line terminators at both ends; below 256 these are
  tab, line feed, vertical tab, form feed, carriage return, space and no-break space.
\<close>

definition is_space :: "char \<Rightarrow> bool" where
  "is_space c = ((of_char c :: nat) \<in> {9, 10, 11, 12, 13, 32, 160})"

definition trim :: "string \<Rightarrow> string" where
  "trim s = rev (dropWhile is_space (rev (dropWhile is_space s)))"

fun startsWith :: "string \<Rightarrow> string \<Rightarrow> bool" where
  "startsWith s [] = True"
| "startsWith [] (c # q) = False"
| "startsWith (a # s) (c # q) = (a = c \<and> startsWith s q)"

fun includes_str :: "string \<Rightarrow> string \<Rightarrow> bool" where
  "includes_str [] q = (q = [])"
| "includes_str (a # s) q = (startsWith (a # s) q \<or> includes_str s q)"

subsection \<open>\<open>levenshteinDistance\<close>\<close>

text \<open>
  The matrix has \<open>str2.length + 1\<close> rows of \<open>str1.length + 1\<close> cells, all
  \<open>null\<close> at first (\<open>None\<close>). A cell read in arithmetic is a number; \<open>null\<close>
  there counts as 0. Every index the three loops use is inside the matrix, so no
  write extends it.
\<close>

type_synonym matrix = "nat option list list"

definition new_matrix :: "nat \<Rightarrow> nat \<Rightarrow> matrix" where
  "new_matrix rows cols = replicate rows (replicate cols None)"

definition put :: "matrix \<Rightarrow> nat \<Rightarrow> nat \<Rightarrow> nat \<Rightarrow> matrix" where
  "put m j i v = m[j := (m ! j)[i := Some v]]"

definition num :: "nat option \<Rightarrow> nat" where
  "num c = (case c of None \<Rightarrow> 0 | Some v \<Rightarrow> v)"

definition cell_value :: "'a list \<Rightarrow> 'a list \<Rightarrow> matrix \<Rightarrow> nat \<Rightarrow> nat \<Rightarrow> nat" where
  "cell_value str1 str2 m j i =
     (let indicator = (if str1 ! (i - 1) = str2 ! (j - 1) then 0 else 1)
      in min (min (num (m ! j ! (i - 1)) + 1) (num (m ! (j - 1) ! i) + 1))
             (num (m ! (j - 1) ! (i - 1)) + indicator))"

definition fill_row :: "'a list \<Rightarrow> 'a list \<Rightarrow> nat \<Rightarrow> matrix \<Rightarrow> matrix" where
  "fill_row str1 str2 j m =
     fold (\<lambda>i m. put m j i (cell_value str1 str2 m j i)) [1..<Suc (length str1)] m"

definition levenshteinDistance :: "'a list \<Rightarrow> 'a list \<Rightarrow> nat option" where
  "levenshteinDistance str1 str2 =
     (let m0 = new_matrix (length str2 + 1) (length str1 + 1);
          m1 = fold (\<lambda>i m. put m 0 i i) [0..<Suc (length str1)] m0;
          m2 = fold (\<lambda>j m. put m j 0 j) [0..<Suc (length str2)] m1;
          m3 = fold (fill_row str1 str2) [1..<Suc (length str2)] m2
      in m3 ! length str2 ! length str1)"

subsection \<open>\<open>calculateSimilarity\<close>\<close>

text \<open>
  Scores are JavaScript numbers. The model computes them exactly, as rationals. A score
  is \<open>1 - d / n\<close> for a distance \<open>d\<close> and a length \<open>n\<close> with \<open>d \<le> n\<close>; for strings
  whose matrix fits in memory, comparing two such scores, or a score with 1, gives the same
  answer in double precision. A threshold is a rational as well; only for a score that
  equals the threshold up to rounding can the comparison in double precision differ.
\<close>

text \<open>
  The body of \<open>calculateSimilarity\<close>, with \<open>String.prototype.toLowerCase\<close> as the
  parameter \<open>lower\<close>. \<open>maxLength\<close> is taken from the strings as they are passed, the
  distance from their lower-cased forms.
\<close>

definition similarity_by :: "('a list \<Rightarrow> 'a list) \<Rightarrow> 'a list \<Rightarrow> 'a list \<Rightarrow> rat" where
  "similarity_by lower str1 str2 =
     (let maxLength = max (length str1) (length str2)
      in if maxLength = 0 then 1
         else 1 - of_nat (num (levenshteinDistance (lower str1) (lower str2)))
                  / of_nat maxLength)"

text \<open>\<open>calculateSimilarity\<close> on strings of code units below 256.\<close>

definition calculateSimilarity :: "string \<Rightarrow> string \<Rightarrow> rat" where
  "calculateSimilarity str1 str2 = similarity_by toLowerCase str1 str2"

text \<open>
  \<open>calculateSimilarity\<close> on strings of UTF-16 code units, given as numbers below
  \<open>2^16\<close>. \<open>lower_unit\<close> is \<open>toLowerCase\<close> on one unit for the units below 256, as
  above, and for \<open>U+0130\<close>, the capital I with a dot above, whose lower-case form is the
  two units \<open>U+0069 U+0307\<close>; the other cased letters above \<open>U+00FF\<close> are not in the
  model and stay as they are.
\<close>

definition lower_unit :: "nat \<Rightarrow> nat list" where
  "lower_unit u =
     (if u = 0x130 then [0x69, 0x307]
      else if (65 \<le> u \<and> u \<le> 90) \<or> (192 \<le> u \<and> u \<le> 222 \<and> u \<noteq> 215) then [u + 32]
      else [u])"

definition toLowerCase_utf16 :: "nat list \<Rightarrow> nat list" where
  "toLowerCase_utf16 s = concat (map lower_unit s)"

definition calculateSimilarity_utf16 :: "nat list \<Rightarrow> nat list \<Rightarrow> rat" where
  "calculateSimilarity_utf16 str1 str2 = similarity_by toLowerCase_utf16 str1 str2"

text \<open>
  The distance of the specification: the least number of single-character insertions,
  deletions and substitutions, by the classic recursion on the two strings.
\<close>

fun editDistance :: "'a list \<Rightarrow> 'a list \<Rightarrow> nat" where
  "editDistance [] ys = length ys"
| "editDistance xs [] = length xs"
| "editDistance (x # xs) (y # ys) =
     min (min (editDistance xs (y # ys) + 1) (editDistance (x # xs) ys + 1))
         (editDistance xs ys + (if x = y then 0 else 1))"

subsection \<open>The reference table and the result types\<close>

record place =
  name :: string
  country :: string

record place_record = place +
  variations :: "string list"

text \<open>
  A suggestion of \<open>getDestinationSuggestions\<close> has \<open>name\<close>, \<open>country\<close> and
  \<open>similarity\<close>; one of \<open>findBestMatch\<close> has \<open>matchedVariation\<close> too.
\<close>

record suggestion = place +
  similarity :: rat

record match_suggestion = suggestion +
  matchedVariation :: string

text \<open>
  The object \<open>findBestMatch\<close> returns. \<open>destination\<close> is \<open>null\<close> (\<open>None\<close>) when
  no variation scored above 0. \<open>hasGoodMatch\<close> is \<open>None\<close> when the returned object
  has no such property, so that reading it gives \<open>undefined\<close>.
\<close>

record match_result =
  destination :: "string option"
  confidence :: rat
  isExact :: bool
  suggestions :: "match_suggestion list"
  hasGoodMatch :: "bool option"

definition destinationsDB :: "place_record list" where
  "destinationsDB =
  [\<lparr>name = ''Paris'', country = ''France'',
      variations = [''paris'', ''pariis'', ''pariz'', ''parris'', ''pariss'', ''parise'', ''paries'']\<rparr>,
   \<lparr>name = ''Tokyo'', country = ''Japan'',
      variations = [''tokyo'', ''tokio'', ''tokoyo'', ''tokiyo'', ''tokyio'', ''toquio'', ''tokyo'']\<rparr>,
   \<lparr>name = ''London'', country = ''United Kingdom'',
      variations = [''london'', ''londan'', ''londin'', ''londun'', ''londn'', ''londen'', ''lundun'']\<rparr>,
   \<lparr>name = ''New York'', country = ''United States'',
      variations = [''new york'', ''newyork'', ''ny'', ''nyc'', ''new yourk'', ''newyourk'', ''nu york'']\<rparr>,
   \<lparr>name = ''Dubai'', country = ''United Arab Emirates'',
      variations = [''dubai'', ''dubay'', ''dubia'', ''dubi'', ''dubaii'', ''dubae'', ''doobai'']\<rparr>,
   \<lparr>name = ''Sydney'', country = ''Australia'',
      variations = [''sydney'', ''sidny'', ''sidnay'', ''sydny'', ''cidney'', ''sydnee'', ''sydnie'']\<rparr>,
   \<lparr>name = ''Barcelona'', country = ''Spain'',
      variations = [''barcelona'', ''barcellona'', ''barselona'', ''barcalona'', ''barcelon'', ''barselona'']\<rparr>,
   \<lparr>name = ''Amsterdam'', country = ''Netherlands'',
      variations = [''amsterdam'', ''amstardam'', ''amstardm'', ''amsterdm'', ''amstredam'', ''amsterdamm'']\<rparr>,
   \<lparr>name = ''Rome'', country = ''Italy'',
      variations = [''rome'', ''roma'', ''roome'', ''rom'', ''roam'', ''roem'']\<rparr>,
   \<lparr>name = ''Berlin'', country = ''Germany'',
      variations = [''berlin'', ''berln'', ''berlin'', ''berline'', ''belin'', ''birlin'']\<rparr>,
   \<lparr>name = ''Prague'', country = ''Czech Republic'',
      variations = [''prague'', ''prag'', ''praga'', ''praag'', ''pragua'', ''praque'', ''prauge'']\<rparr>,
   \<lparr>name = ''Vienna'', country = ''Austria'',
      variations = [''vienna'', ''viena'', ''wein'', ''vien'', ''veinna'', ''vianna'', ''vieena'']\<rparr>,
   \<lparr>name = ''Bangkok'', country = ''Thailand'',
      variations = [''bangkok'', ''bangcock'', ''bangkock'', ''bangok'', ''bankok'', ''bangkol'']\<rparr>,
   \<lparr>name = ''Istanbul'', country = ''Turkey'',
      variations = [''istanbul'', ''istambul'', ''istanbol'', ''istanbull'', ''istambol'', ''constantinople'']\<rparr>,
   \<lparr>name = ''Cairo'', country = ''Egypt'',
      variations = [''cairo'', ''cayro'', ''caeiro'', ''kairo'', ''cyro'', ''cario'']\<rparr>,
   \<lparr>name = ''Mumbai'', country = ''India'',
      variations = [''mumbai'', ''bombay'', ''mumbay'', ''mumbae'', ''mumbaii'', ''mumby'']\<rparr>,
   \<lparr>name = ''Singapore'', country = ''Singapore'',
      variations = [''singapore'', ''singapur'', ''singapoor'', ''singapoore'', ''singapre'', ''singpore'']\<rparr>,
   \<lparr>name = ''Los Angeles'', country = ''United States'',
      variations = [''los angeles'', ''losangeles'', ''la'', ''los angelos'', ''los angelis'', ''l.a.'']\<rparr>,
   \<lparr>name = ''Hong Kong'', country = ''China'',
      variations = [''hong kong'', ''hongkong'', ''hk'', ''hong cong'', ''hong konk'', ''hongkong'']\<rparr>,
   \<lparr>name = ''Seoul'', country = ''South Korea'',
      variations = [''seoul'', ''seul'', ''soeul'', ''seoul'', ''seole'', ''suel'']\<rparr>]"

subsection \<open>Sorting, de-duplication and truncation of a suggestion list\<close>

text \<open>
  \<open>sort((a, b) => b.similarity - a.similarity)\<close>: \<open>Array.prototype.sort\<close> is stable,
  and so is \<^const>\<open>sort_key\<close>; the key is the negated score, for descending order.
\<close>

definition sort_by_similarity :: "('a suggestion_scheme) list \<Rightarrow> ('a suggestion_scheme) list" where
  "sort_by_similarity xs = sort_key (\<lambda>s. - similarity s) xs"

fun findIndex :: "('a \<Rightarrow> bool) \<Rightarrow> 'a list \<Rightarrow> int" where
  "findIndex P [] = - 1"
| "findIndex P (x # xs) =
     (if P x then 0 else (let k = findIndex P xs in if k < 0 then - 1 else k + 1))"

text \<open>\<open>filter((item, index, self) => index === self.findIndex(t => t.name === item.name))\<close>\<close>

definition unique_names :: "('a place_scheme) list \<Rightarrow> ('a place_scheme) list" where
  "unique_names self =
     map snd (filter (\<lambda>(index, item). int index = findIndex (\<lambda>t. name t = name item) self)
                     (enumerate 0 self))"

text \<open>
  \<open>slice(0, end)\<close> for an integer \<open>end\<close>: a negative \<open>end\<close> counts from the end of
  the array.
\<close>

definition slice0 :: "'a list \<Rightarrow> int \<Rightarrow> 'a list" where
  "slice0 xs e =
     (let len = int (length xs);
          final = (if e < 0 then max (len + e) 0 else min e len)
      in take (nat final) xs)"

subsection \<open>\<open>findBestMatch\<close>\<close>

record search_state =
  bestMatch :: "string option"
  bestScore :: rat
  collected :: "match_suggestion list"

text \<open>The body of the inner loop, for one variation of the record \<open>d\<close>.\<close>

definition consider_variation ::
  "rat \<Rightarrow> string \<Rightarrow> place_record \<Rightarrow> string \<Rightarrow> search_state \<Rightarrow> search_state" where
  "consider_variation threshold queryLower d variation st =
     (let sim = calculateSimilarity queryLower variation;
          st1 = (if sim > bestScore st
                 then st\<lparr>bestScore := sim, bestMatch := Some (name d)\<rparr> else st)
      in if sim \<ge> threshold \<and> sim < 1
         then st1\<lparr>collected := collected st1 @
                 [\<lparr>name = name d, country = country d, similarity = sim,
                   matchedVariation = variation\<rparr>]\<rparr>
         else st1)"

definition exact_result :: "place_record \<Rightarrow> match_result" where
  "exact_result d =
     \<lparr>destination = Some (name d), confidence = 1, isExact = True, suggestions = [],
      hasGoodMatch = None\<rparr>"

definition fuzzy_result :: "rat \<Rightarrow> search_state \<Rightarrow> match_result" where
  "fuzzy_result threshold st =
     (let uniqueSuggestions = slice0 (unique_names (sort_by_similarity (collected st))) 3
      in \<lparr>destination = bestMatch st, confidence = bestScore st, isExact = False,
          suggestions = uniqueSuggestions,
          hasGoodMatch = Some (bestScore st \<ge> threshold)\<rparr>)"

text \<open>
  The outer loop over the table: a record one of whose variations is the query ends
  the search at once; otherwise the record's variations are scored and the loop goes on.
\<close>

fun scan :: "rat \<Rightarrow> string \<Rightarrow> place_record list \<Rightarrow> search_state \<Rightarrow> match_result" where
  "scan threshold queryLower [] st = fuzzy_result threshold st"
| "scan threshold queryLower (d # ds) st =
     (if queryLower \<in> set (variations d) then exact_result d
      else scan threshold queryLower ds
             (fold (consider_variation threshold queryLower d) (variations d) st))"

definition findBestMatch :: "string \<Rightarrow> rat \<Rightarrow> match_result" where
  "findBestMatch query threshold =
     scan threshold (trim (toLowerCase query)) destinationsDB
       \<lparr>bestMatch = None, bestScore = 0, collected = []\<rparr>"

subsection \<open>\<open>getDestinationSuggestions\<close>\<close>

text \<open>
  The loop over the table: the first variation of a record that starts with or contains
  the query gives the record's one suggestion (\<open>break\<close>).
\<close>

fun collect :: "string \<Rightarrow> place_record list \<Rightarrow> suggestion list" where
  "collect queryLower [] = []"
| "collect queryLower (d # ds) =
     (case find (\<lambda>variation. startsWith variation queryLower \<or> includes_str variation queryLower)
             (variations d) of
        None \<Rightarrow> collect queryLower ds
      | Some variation \<Rightarrow>
          \<lparr>name = name d, country = country d,
           similarity = calculateSimilarity queryLower variation\<rparr> # collect queryLower ds)"

definition getDestinationSuggestions :: "string \<Rightarrow> int \<Rightarrow> suggestion list" where
  "getDestinationSuggestions query limit =
     (let queryLower = trim (toLowerCase query)
      in if length queryLower < 2 then []
         else slice0 (sort_by_similarity (unique_names (collect queryLower destinationsDB))) limit)"

section \<open>FetchCache: the hook \<open>useFetch\<close>\<close>

subsection \<open>Request configurations and \<open>JSON.stringify\<close>\<close>

text \<open>
  The \<open>options\<close> argument is a JavaScript value. The model has the values JSON knows
  (\<open>null\<close>, booleans, integers, strings, arrays, objects) and \<open>undefined\<close>. An object
  is the list of its own enumerable string-keyed properties in the order
  \<open>JSON.stringify\<close> visits them, which for keys that are not array indices is the order
  in which they were added.
\<close>

datatype jsval =
    JUndefined
  | JNull
  | JBool bool
  | JNum int
  | JStr string
  | JArr "jsval list"
  | JObj "(string \<times> jsval) list"

text \<open>
  \<open>digit_char\<close> is the digit of a number below 16; \<open>digits\<close> writes a natural number
  in decimal, as \<open>Number::toString\<close> does for an integer below \<open>10^21\<close>.
\<close>

definition digit_char :: "nat \<Rightarrow> char" where
  "digit_char d = ''0123456789abcdef'' ! d"

fun digits :: "nat \<Rightarrow> string" where
  "digits n = (if n < 10 then [digit_char n] else digits (n div 10) @ [digit_char (n mod 10)])"

declare digits.simps [simp del]

definition show_int :: "int \<Rightarrow> string" where
  "show_int i = (if i < 0 then CHR ''-'' # digits (nat (- i)) else digits (nat i))"

text \<open>
  \<open>QuoteJSONString\<close>: the double quote (\<open>0x22\<close>) and the backslash (\<open>0x5C\<close>) get a
  backslash in front, the control characters below \<open>0x20\<close> their short escape or
  \<open>\u00XX\<close>, every other code unit stands for itself.
\<close>

definition escape_char :: "char \<Rightarrow> string" where
  "escape_char c =
     (let n = (of_char c :: nat)
      in if n = 0x22 then [CHR 0x5C, CHR 0x22]
         else if n = 0x5C then [CHR 0x5C, CHR 0x5C]
         else if n = 8 then [CHR 0x5C, CHR ''b'']
         else if n = 9 then [CHR 0x5C, CHR ''t'']
         else if n = 10 then [CHR 0x5C, CHR ''n'']
         else if n = 12 then [CHR 0x5C, CHR ''f'']
         else if n = 13 then [CHR 0x5C, CHR ''r'']
         else if n < 32 then [CHR 0x5C, CHR ''u'', CHR ''0'', CHR ''0'',
                              digit_char (n div 16), digit_char (n mod 16)]
         else [c])"

definition quote :: "string \<Rightarrow> string" where
  "quote s = CHR 0x22 # concat (map escape_char s) @ [CHR 0x22]"

fun join :: "string list \<Rightarrow> string" where
  "join [] = []"
| "join [s] = s"
| "join (s # t # ss) = s @ CHR '','' # join (t # ss)"

text \<open>
  \<open>SerializeJSONProperty\<close>: \<open>None\<close> is the result \<open>undefined\<close>. A property whose
  value serialises to \<open>undefined\<close> is left out of its object; such an element of an
  array is written \<open>null\<close>.
\<close>

fun serialize :: "jsval \<Rightarrow> string option" where
  "serialize JUndefined = None"
| "serialize JNull = Some ''null''"
| "serialize (JBool b) = Some (if b then ''true'' else ''false'')"
| "serialize (JNum n) = Some (show_int n)"
| "serialize (JStr s) = Some (quote s)"
| "serialize (JArr vs) =
     Some (CHR ''['' # join (map (\<lambda>v. case serialize v of None \<Rightarrow> ''null'' | Some s \<Rightarrow> s) vs)
           @ '']'')"
| "serialize (JObj ps) =
     Some (CHR ''{'' # join (concat (map (\<lambda>p. case serialize (snd p) of None \<Rightarrow> []
                                               | Some s \<Rightarrow> [quote (fst p) @ CHR '':'' # s]) ps))
           @ ''}'')"

text \<open>
  \<open>useFetch(url, options = {}, deps = [])\<close>: an \<open>undefined\<close> argument takes the
  default. In the template literal the result \<open>undefined\<close> of \<open>JSON.stringify\<close>
  reads \<open>undefined\<close>. A falsy \<open>url\<close> is the empty string; the key is then \<open>null\<close>.
\<close>

definition default_options :: "jsval \<Rightarrow> jsval" where
  "default_options options = (if options = JUndefined then JObj [] else options)"

definition optionsString :: "jsval \<Rightarrow> string" where
  "optionsString options =
     (case serialize (default_options options) of None \<Rightarrow> ''undefined'' | Some s \<Rightarrow> s)"

definition key :: "string \<Rightarrow> jsval \<Rightarrow> string option" where
  "key url options = (if url = [] then None else Some (url @ CHR ''|'' # optionsString options))"

text \<open>
  \<open>options.ttl || 5 * 60 * 1000\<close>, for a \<open>ttl\<close> that is a whole number of milliseconds
  or is absent: 0 is falsy and gives the default too. A \<open>ttl\<close> of another type is outside
  the model and reads as absent. For \<open>options = null\<close> the expression throws; \<open>fetchNow\<close>
  below takes that branch before it reads \<open>ttl\<close>.
\<close>

definition ttl :: "jsval \<Rightarrow> int" where
  "ttl options =
     (case default_options options of
        JObj ps \<Rightarrow> (case map_of ps ''ttl'' of
                      Some (JNum n) \<Rightarrow> if n = 0 then 5 * 60 * 1000 else n
                    | _ \<Rightarrow> 5 * 60 * 1000)
      | _ \<Rightarrow> 5 * 60 * 1000)"

subsection \<open>The cache, the state of one hook instance, the outcome of a request\<close>

record 'p cache_entry =
  entry_data :: 'p
  timestamp :: int

type_synonym 'p cache = "string \<rightharpoonup> 'p cache_entry"

text \<open>
  The three \<open>useState\<close> cells and the two refs of one mounted \<open>useFetch\<close>. \<open>data\<close>
  and \<open>error\<close> start as \<open>null\<close> (\<open>None\<close>).
\<close>

record 'p hook_state =
  data :: "'p option"
  loading :: bool
  error :: "string option"
  refetchIndex :: nat
  fetchToken :: nat

definition initial_state :: "'p hook_state" where
  "initial_state = \<lparr>data = None, loading = False, error = None, refetchIndex = 0, fetchToken = 0\<rparr>"

text \<open>
  A call of \<open>fetchNow\<close> suspended at \<open>await fetch(...)\<close>: what its continuation reads
  from the closure.
\<close>

record request =
  req_url :: string
  req_key :: string
  currentToken :: nat

record js_error =
  err_name :: string
  message :: string

text \<open>
  What the network does to a suspended call: \<open>fetch\<close> rejects (a network failure, or an
  abort with the name \<open>AbortError\<close>); the response is not \<open>ok\<close>; \<open>res.json()\<close>
  rejects (a body that is not JSON, or an abort); or the body is decoded.
\<close>

datatype 'p outcome =
    FetchRejected js_error
  | NotOk nat string
  | JsonRejected js_error
  | Json 'p

text \<open>The error the \<open>try\<close> block throws, if any.\<close>

definition thrown :: "'p outcome \<Rightarrow> js_error option" where
  "thrown out =
     (case out of
        FetchRejected e \<Rightarrow> Some e
      | NotOk status statusText \<Rightarrow>
          Some \<lparr>err_name = ''Error'',
                message = ''HTTP '' @ digits status @ '' - '' @ statusText\<rparr>
      | JsonRejected e \<Rightarrow> Some e
      | Json json \<Rightarrow> None)"

text \<open>\<open>err.message || String(err)\<close>; an error with an empty message prints as its name.\<close>

definition error_text :: "js_error \<Rightarrow> string" where
  "error_text e = (if message e \<noteq> [] then message e else err_name e)"

subsection \<open>\<open>fetchNow\<close>\<close>

text \<open>
  The synchronous part of \<open>fetchNow\<close>, up to \<open>await fetch\<close>. The result is the new
  cache and state, and the suspended call when a network request was issued. When the
  key has an entry and \<open>options\<close> is \<open>null\<close>, reading \<open>options.ttl\<close> throws a
  \<open>TypeError\<close>: the call ends there, with the generation counter incremented and
  nothing else done.
\<close>

definition fetchNow_begin ::
  "string \<Rightarrow> jsval \<Rightarrow> int \<Rightarrow> 'p cache \<times> 'p hook_state
   \<Rightarrow> ('p cache \<times> 'p hook_state) \<times> request option" where
  "fetchNow_begin url options now w =
     (case w of (cache, h) \<Rightarrow>
        (case key url options of
           None \<Rightarrow> (w, None)
         | Some k \<Rightarrow>
             (let token = fetchToken h + 1;
                  h1 = h\<lparr>fetchToken := token\<rparr>;
                  issued = ((cache, h1\<lparr>loading := True, error := None\<rparr>),
                            Some \<lparr>req_url = url, req_key = k, currentToken = token\<rparr>)
              in case cache k of
                   None \<Rightarrow> issued
                 | Some entry \<Rightarrow>
                     if options = JNull then ((cache, h1), None)
                     else if now - timestamp entry < ttl options
                     then ((cache, h1\<lparr>data := Some (entry_data entry), loading := False\<rparr>), None)
                     else issued)))"

text \<open>The \<open>finally\<close> block.\<close>

definition finally_block :: "request \<Rightarrow> 'p hook_state \<Rightarrow> 'p hook_state" where
  "finally_block req h = (if fetchToken h = currentToken req then h\<lparr>loading := False\<rparr> else h)"

text \<open>
  The rest of \<open>fetchNow\<close>, run when the request settles at time \<open>now\<close>: the end of the
  \<open>try\<close> block or the \<open>catch\<close> block, then \<open>finally\<close>.
\<close>

definition fetchNow_settle ::
  "request \<Rightarrow> 'p outcome \<Rightarrow> int \<Rightarrow> 'p cache \<times> 'p hook_state \<Rightarrow> 'p cache \<times> 'p hook_state" where
  "fetchNow_settle req out now w =
     (case w of (cache, h) \<Rightarrow>
        (case thrown out of
           None \<Rightarrow>
             (case out of
                Json json \<Rightarrow>
                  (cache(req_key req \<mapsto> \<lparr>entry_data = json, timestamp = now\<rparr>),
                   finally_block req (if fetchToken h = currentToken req then h\<lparr>data := Some json\<rparr> else h))
              | _ \<Rightarrow> (cache, finally_block req h))
         | Some err \<Rightarrow>
             (cache,
              finally_block req (if err_name err \<noteq> ''AbortError''
                           then h\<lparr>error := Some (error_text err)\<rparr> else h))))"

subsection \<open>The effect and \<open>refetch\<close>\<close>

text \<open>
  The dependency array of the effect, \<open>[url, fetchNow, refetchIndex.current, ...deps]\<close>.
  \<open>fetchNow\<close> is a function object, compared by identity: \<open>useCallback\<close> gives a new
  one when \<open>[key, url, options]\<close> changes, \<open>options\<close> being compared by identity too.
  It stands in the array by its identity, a value of any type \<open>'i\<close>. The effect runs
  after a render whose array differs from the one of the render before; its body calls
  \<open>fetchNow\<close>. The component renders again when a setter changes one of the three state
  cells (or when its parent renders it); writing to a ref asks for no render.
\<close>

record ('i, 'd) effect_deps =
  dep_url :: string
  dep_fetchNow :: 'i
  dep_refetchIndex :: nat
  dep_rest :: "'d list"

definition dependencies :: "string \<Rightarrow> 'i \<Rightarrow> 'd list \<Rightarrow> 'p hook_state \<Rightarrow> ('i, 'd) effect_deps" where
  "dependencies url fetchNow_id deps h =
     \<lparr>dep_url = url, dep_fetchNow = fetchNow_id,
      dep_refetchIndex = refetchIndex h, dep_rest = deps\<rparr>"

definition refetch :: "string \<Rightarrow> jsval \<Rightarrow> 'p cache \<times> 'p hook_state \<Rightarrow> 'p cache \<times> 'p hook_state" where
  "refetch url options w =
     (case w of (cache, h) \<Rightarrow>
        ((case key url options of None \<Rightarrow> cache | Some k \<Rightarrow> cache(k := None)),
         h\<lparr>refetchIndex := refetchIndex h + 1\<rparr>))"

subsection \<open>Runs of one hook instance\<close>

text \<open>
  \<open>fetchNow\<close> is called by the effect only, and the effect returns the cleanup
  \<open>controller.abort()\<close>, which React runs before the effect runs again and when the
  component is unmounted. So every request still in flight has been aborted when the next
  call of \<open>fetchNow\<close> takes its generation. \<open>fetch\<close> honours the signal: a request
  that has been aborted can only fail, with an error named \<open>AbortError\<close> (from
  \<open>fetch\<close> or from \<open>res.json()\<close>).

  A configuration is the cache, the state of the hook and the requests in flight, each
  with the flag of its signal. The events of a run: the effect runs for the \<open>url\<close> and
  \<open>options\<close> of the last render (the cleanup of the run before, then the body); the
  component is unmounted (the cleanup alone); a request in flight is settled by the
  network; the caller invokes \<open>refetch\<close>; another instance of the hook changes the
  cache, which is shared by all of them. \<open>step\<close> is \<open>None\<close> for an event that cannot
  happen in the configuration.
\<close>

type_synonym 'p config = "('p cache \<times> 'p hook_state) \<times> (request \<times> bool) list"

datatype 'p event =
    Effect string jsval int
  | Unmount
  | Settle request "'p outcome" int
  | Refetch string jsval
  | Elsewhere "'p cache"

definition abort_failure :: "'p outcome \<Rightarrow> bool" where
  "abort_failure out =
     (case thrown out of None \<Rightarrow> False | Some err \<Rightarrow> err_name err = ''AbortError'')"

definition abort_all :: "(request \<times> bool) list \<Rightarrow> (request \<times> bool) list" where
  "abort_all inflight = map (\<lambda>(r, aborted). (r, True)) inflight"

fun step :: "'p event \<Rightarrow> 'p config \<Rightarrow> 'p config option" where
  "step (Effect url options now) (w, inflight) =
     (case fetchNow_begin url options now w of
        (w', issued) \<Rightarrow>
          Some (w', abort_all inflight @ (case issued of None \<Rightarrow> [] | Some r \<Rightarrow> [(r, False)])))"
| "step Unmount (w, inflight) = Some (w, abort_all inflight)"
| "step (Settle r out now) (w, inflight) =
     (if list_ex (\<lambda>(r', aborted). r' = r \<and> (aborted \<longrightarrow> abort_failure out)) inflight
      then Some (fetchNow_settle r out now w, filter (\<lambda>(r', aborted). r' \<noteq> r) inflight)
      else None)"
| "step (Refetch url options) (w, inflight) = Some (refetch url options w, inflight)"
| "step (Elsewhere cache') (w, inflight) = Some ((cache', snd w), inflight)"


subsection \<open>Three runs of the hook\<close>

text \<open>
  A race: the hook is mounted on \<open>/a\<close> and issues request 1; its \<open>url\<close> changes to
  \<open>/b\<close>, request 1 is aborted and request 2 issued; request 2 is answered with the body
  \<open>B\<close>. Request 1 is still in flight.
\<close>

definition req_a :: request where
  "req_a = \<lparr>req_url = ''/a'', req_key = ''/a|{}'', currentToken = 1\<rparr>"







text \<open>
  A cache hit after a failure: the cache holds a fresh entry for \<open>/a\<close>, written by
  another instance of the hook; this instance asks for \<open>/x\<close>, is answered with status
  404, and then its \<open>url\<close> changes to \<open>/a\<close>.
\<close>

definition req_x :: request where
  "req_x = \<lparr>req_url = ''/x'', req_key = ''/x|{}'', currentToken = 1\<rparr>"

definition shared_cache :: "string cache" where
  "shared_cache = [''/a|{}'' \<mapsto> \<lparr>entry_data = ''A'', timestamp = 0\<rparr>]"

definition hit_issue_x :: "(string cache \<times> string hook_state) \<times> request option" where
  "hit_issue_x = fetchNow_begin ''/x'' (JObj []) 1000 (shared_cache, initial_state)"

definition hit_failed_x :: "string cache \<times> string hook_state" where
  "hit_failed_x = fetchNow_settle req_x (NotOk 404 ''Not Found'') 2000 (fst hit_issue_x)"

definition hit_a :: "(string cache \<times> string hook_state) \<times> request option" where
  "hit_a = fetchNow_begin ''/a'' (JObj []) 3000 hit_failed_x"

text \<open>
  A refresh: the hook is mounted on \<open>/a\<close>, issues request 1, and the answer \<open>A\<close> is
  stored at time 5; then the caller invokes \<open>refetch\<close>.
\<close>

definition refresh_issue :: "(string cache \<times> string hook_state) \<times> request option" where
  "refresh_issue = fetchNow_begin ''/a'' (JObj []) 0 (Map.empty, initial_state)"

definition refresh_loaded :: "string cache \<times> string hook_state" where
  "refresh_loaded = fetchNow_settle req_a (Json ''A'') 5 (fst refresh_issue)"

definition refresh_done :: "string cache \<times> string hook_state" where
  "refresh_done = refetch ''/a'' (JObj []) refresh_loaded"

section \<open>Notions used in the proofs\<close>


text \<open>
  An alignment of two strings pairs them up position by position; its cost counts the
  deleted, the inserted and the substituted characters. \<open>alignment n xs ys\<close>: the
  string \<open>ys\<close> comes from \<open>xs\<close> by an alignment of cost \<open>n\<close>.
\<close>

inductive alignment :: "nat \<Rightarrow> 'a list \<Rightarrow> 'a list \<Rightarrow> bool" where
  al_Nil: "alignment 0 [] []"
| al_Del: "alignment n xs ys \<Longrightarrow> alignment (Suc n) (x # xs) ys"
| al_Ins: "alignment n xs ys \<Longrightarrow> alignment (Suc n) xs (y # ys)"
| al_Sub: "alignment n xs ys \<Longrightarrow> alignment (n + (if x = y then 0 else 1)) (x # xs) (y # ys)"

text \<open>
  One edit of a string: a character is inserted, deleted or replaced at some position.
  \<open>(edit ^^ n) xs ys\<close>: \<open>n\<close> edits, one after the other, turn \<open>xs\<close> into \<open>ys\<close>.
\<close>

inductive edit :: "'a list \<Rightarrow> 'a list \<Rightarrow> bool" where
  insertion: "edit ys (c # ys)"
| deletion: "edit (c # ys) ys"
| substitution: "edit (c # ys) (c' # ys)"
| later: "edit ys zs \<Longrightarrow> edit (a # ys) (a # zs)"

text \<open>
  The matrix of \<open>levenshteinDistance\<close> while it is filled: every row has its length,
  and the cells of a region \<open>P\<close> hold the distance of the two prefixes they stand for.
\<close>

definition wf_matrix :: "nat \<Rightarrow> nat \<Rightarrow> matrix \<Rightarrow> bool" where
  "wf_matrix n2 n1 m = (length m = Suc n2 \<and> (\<forall>row\<in>set m. length row = Suc n1))"

definition target :: "'a list \<Rightarrow> 'a list \<Rightarrow> nat \<Rightarrow> nat \<Rightarrow> nat" where
  "target str1 str2 j i = editDistance (rev (take i str1)) (rev (take j str2))"

definition filled :: "'a list \<Rightarrow> 'a list \<Rightarrow> (nat \<Rightarrow> nat \<Rightarrow> bool) \<Rightarrow> matrix \<Rightarrow> bool" where
  "filled str1 str2 P m =
     (wf_matrix (length str2) (length str1) m \<and>
      (\<forall>j\<le>length str2. \<forall>i\<le>length str1. P j i \<longrightarrow> m ! j ! i = Some (target str1 str2 j i)))"

text \<open>
  The two halves of the loop of \<open>findBestMatch\<close>: the first record of the table
  one of whose variations is the query, and the state after every variation of every
  record has been scored.
\<close>

definition exact_hit :: "string \<Rightarrow> place_record list \<Rightarrow> place_record option" where
  "exact_hit queryLower db = find (\<lambda>d. queryLower \<in> set (variations d)) db"

definition scored :: "rat \<Rightarrow> string \<Rightarrow> place_record list \<Rightarrow> search_state \<Rightarrow> search_state" where
  "scored threshold queryLower db st =
     fold (\<lambda>d. fold (consider_variation threshold queryLower d) (variations d)) db st"

text \<open>The \<open>suggestions\<close> array of \<open>findBestMatch\<close> when its loops have ended.\<close>

definition candidates :: "string \<Rightarrow> rat \<Rightarrow> match_suggestion list" where
  "candidates query threshold =
     collected (scored threshold (trim (toLowerCase query)) destinationsDB
                  \<lparr>bestMatch = None, bestScore = 0, collected = []\<rparr>)"

text \<open>The test of the de-duplicating \<open>filter\<close>, by index.\<close>

definition first_index :: "('a place_scheme) list \<Rightarrow> nat \<Rightarrow> bool" where
  "first_index self i = (int i = findIndex (\<lambda>t. name t = name (self ! i)) self)"

text \<open>
  Reading a JSON text back. \<open>json_value\<close>: a value JSON can represent, with no
  \<open>undefined\<close> inside. \<open>text_of\<close> is its text and \<open>member\<close> the text of one
  property. \<open>stop\<close>: what follows a value in a text does not begin with a digit.
  \<open>lead\<close> tells from the first character of a text what kind of value it is
  (\<open>tag\<close>). \<open>decode1\<close> reads one character of a quoted string back.
\<close>

definition is_digit :: "char \<Rightarrow> bool" where
  "is_digit c = (c \<in> set ''0123456789'')"

definition stop :: "string \<Rightarrow> bool" where
  "stop r = (case r of [] \<Rightarrow> True | c # _ \<Rightarrow> \<not> is_digit c)"

definition dec_value :: "string \<Rightarrow> nat" where
  "dec_value s = foldl (\<lambda>acc c. 10 * acc + (of_char c - 48)) 0 s"

definition hexval :: "char \<Rightarrow> nat" where
  "hexval h = length (takeWhile (\<lambda>x. x \<noteq> h) ''0123456789abcdef'')"

definition short_code :: "char \<Rightarrow> nat option" where
  "short_code e =
     (if e = CHR 0x22 then Some 0x22 else if e = CHR 0x5C then Some 0x5C
      else if e = CHR ''b'' then Some 8 else if e = CHR ''t'' then Some 9
      else if e = CHR ''n'' then Some 10 else if e = CHR ''f'' then Some 12
      else if e = CHR ''r'' then Some 13 else None)"

definition decode1 :: "string \<Rightarrow> (nat \<times> string) option" where
  "decode1 s =
     (case s of
        [] \<Rightarrow> None
      | a # t \<Rightarrow>
          if a \<noteq> CHR 0x5C then Some (of_char a, t)
          else (case t of
                  [] \<Rightarrow> None
                | e # u \<Rightarrow>
                    (case short_code e of
                       Some n \<Rightarrow> Some (n, u)
                     | None \<Rightarrow>
                         (case u of
                            z1 # z2 # h1 # h2 # v \<Rightarrow> Some (16 * hexval h1 + hexval h2, v)
                          | _ \<Rightarrow> None))))"

fun json_value :: "jsval \<Rightarrow> bool" where
  "json_value JUndefined = False"
| "json_value (JArr vs) = (\<forall>v\<in>set vs. json_value v)"
| "json_value (JObj ps) = (\<forall>p\<in>set ps. json_value (snd p))"
| "json_value v = True"

definition text_of :: "jsval \<Rightarrow> string" where
  "text_of v = (case serialize v of None \<Rightarrow> ''null'' | Some s \<Rightarrow> s)"

definition member :: "string \<times> jsval \<Rightarrow> string" where
  "member p = quote (fst p) @ CHR '':'' # text_of (snd p)"

definition lead :: "char \<Rightarrow> nat" where
  "lead c =
     (if is_digit c \<or> c = CHR ''-'' then 3
      else if c = CHR ''n'' then 1
      else if c = CHR ''t'' \<or> c = CHR ''f'' then 2
      else if c = CHR 0x22 then 4
      else if c = CHR ''['' then 5
      else if c = CHR ''{'' then 6
      else 0)"

fun tag :: "jsval \<Rightarrow> nat" where
  "tag JUndefined = 0"
| "tag JNull = 1"
| "tag (JBool b) = 2"
| "tag (JNum n) = 3"
| "tag (JStr s) = 4"
| "tag (JArr vs) = 5"
| "tag (JObj ps) = 6"

section \<open>The edit distance\<close>

lemma editDistance_Nil2: "editDistance xs [] = length xs"
  by (cases xs) simp_all

lemma alignment_Nil1: "alignment (length ys) [] ys"
  by (induction ys) (auto intro: alignment.intros)

lemma alignment_Nil2: "alignment (length xs) xs []"
  by (induction xs) (auto intro: alignment.intros)

lemma alignment_editDistance: "alignment (editDistance xs ys) xs ys"
proof (induction xs ys rule: editDistance.induct)
  case (1 ys)
  show ?case by (simp add: alignment_Nil1)
next
  case (2 v va)
  show ?case using alignment_Nil2 [of "v # va"] by simp
next
  case (3 x xs y ys)
  let ?d = "editDistance xs (y # ys) + 1" and ?i = "editDistance (x # xs) ys + 1"
    and ?s = "editDistance xs ys + (if x = y then 0 else 1)"
  have d: "alignment ?d (x # xs) (y # ys)" using al_Del [OF 3(1)] by simp
  have i: "alignment ?i (x # xs) (y # ys)" using al_Ins [OF 3(2)] by simp
  have s: "alignment ?s (x # xs) (y # ys)" using al_Sub [OF 3(3)] by simp
  have "editDistance (x # xs) (y # ys) = ?d \<or> editDistance (x # xs) (y # ys) = ?i
        \<or> editDistance (x # xs) (y # ys) = ?s"
    by (simp add: min_def)
  with d i s show ?case by metis
qed

lemma editDistance_Del: "editDistance (x # xs) ys \<le> Suc (editDistance xs ys)"
  by (cases ys) (simp_all add: editDistance_Nil2)

lemma editDistance_Ins: "editDistance xs (y # ys) \<le> Suc (editDistance xs ys)"
  by (cases xs) simp_all

lemma editDistance_Sub:
  "editDistance (x # xs) (y # ys) \<le> editDistance xs ys + (if x = y then 0 else 1)"
  by simp

lemma editDistance_least: "alignment n xs ys \<Longrightarrow> editDistance xs ys \<le> n"
proof (induction rule: alignment.induct)
  case al_Nil
  show ?case by simp
next
  case (al_Del n xs ys x)
  then show ?case using editDistance_Del [of x xs ys] by simp
next
  case (al_Ins n xs ys y)
  then show ?case using editDistance_Ins [of xs y ys] by simp
next
  case (al_Sub n xs ys x y)
  then show ?case using editDistance_Sub [of x xs y ys] by (simp split: if_splits)
qed

lemma alignment_snoc_Del: "alignment n xs ys \<Longrightarrow> alignment (Suc n) (xs @ [x]) ys"
proof (induction rule: alignment.induct)
  case al_Nil
  show ?case using al_Del [OF alignment.al_Nil, of x] by simp
next
  case (al_Sub n xs ys a b)
  show ?case using alignment.al_Sub [OF al_Sub.IH, of a b] by simp
qed (auto intro: alignment.intros)

lemma alignment_snoc_Ins: "alignment n xs ys \<Longrightarrow> alignment (Suc n) xs (ys @ [y])"
proof (induction rule: alignment.induct)
  case al_Nil
  show ?case using al_Ins [OF alignment.al_Nil, of y] by simp
next
  case (al_Sub n xs ys a b)
  show ?case using alignment.al_Sub [OF al_Sub.IH, of a b] by simp
qed (auto intro: alignment.intros)

lemma alignment_snoc_Sub:
  "alignment n xs ys \<Longrightarrow> alignment (n + (if x = y then 0 else 1)) (xs @ [x]) (ys @ [y])"
proof (induction rule: alignment.induct)
  case al_Nil
  show ?case using al_Sub [OF alignment.al_Nil, of x y] by simp
next
  case (al_Del n xs ys a)
  show ?case using alignment.al_Del [OF al_Del.IH, of a] by simp
next
  case (al_Ins n xs ys b)
  show ?case using alignment.al_Ins [OF al_Ins.IH, of b] by simp
next
  case (al_Sub n xs ys a b)
  show ?case using alignment.al_Sub [OF al_Sub.IH, of a b] by (simp add: add.commute add.left_commute)
qed

lemma alignment_rev: "alignment n xs ys \<Longrightarrow> alignment n (rev xs) (rev ys)"
proof (induction rule: alignment.induct)
  case al_Nil
  show ?case by (simp add: alignment.al_Nil)
next
  case (al_Del n xs ys x)
  then show ?case by (simp add: alignment_snoc_Del)
next
  case (al_Ins n xs ys y)
  then show ?case by (simp add: alignment_snoc_Ins)
next
  case (al_Sub n xs ys x y)
  then show ?case using alignment_snoc_Sub [of n "rev xs" "rev ys" x y] by simp
qed


lemma editDistance_rev: "editDistance (rev xs) (rev ys) = editDistance xs ys"
proof (rule antisym)
  show "editDistance (rev xs) (rev ys) \<le> editDistance xs ys"
    by (rule editDistance_least [OF alignment_rev [OF alignment_editDistance]])
  have "alignment (editDistance (rev xs) (rev ys)) (rev (rev xs)) (rev (rev ys))"
    by (rule alignment_rev [OF alignment_editDistance])
  then show "editDistance xs ys \<le> editDistance (rev xs) (rev ys)"
    using editDistance_least by fastforce
qed


lemma editDistance_eq_0: "editDistance xs ys = 0 \<longleftrightarrow> xs = ys"
  by (induction xs ys rule: editDistance.induct) auto

lemma editDistance_le_max: "editDistance xs ys \<le> max (length xs) (length ys)"
  by (induction xs ys rule: editDistance.induct) auto

text \<open>
  The recursion is the least number of edits that turn one string into the other.
\<close>

lemma edits_Cons: "(edit ^^ n) xs ys \<Longrightarrow> (edit ^^ n) (a # xs) (a # ys)"
proof (induction n arbitrary: ys)
  case 0
  then show ?case by simp
next
  case (Suc n)
  then obtain zs where "(edit ^^ n) xs zs" "edit zs ys" by auto
  with Suc.IH [of zs] show ?case by (auto intro: edit.later)
qed

lemma alignment_edits: "alignment n xs ys \<Longrightarrow> (edit ^^ n) xs ys"
proof (induction rule: alignment.induct)
  case al_Nil
  show ?case by simp
next
  case (al_Del n xs ys x)
  have "edit (x # xs) xs" by (rule edit.deletion)
  with al_Del.IH show ?case by (metis relpowp_Suc_I2)
next
  case (al_Ins n xs ys y)
  have "edit ys (y # ys)" by (rule edit.insertion)
  with al_Ins.IH show ?case by (metis relpowp_Suc_I)
next
  case (al_Sub n xs ys x y)
  show ?case
  proof (cases "x = y")
    case True
    with edits_Cons [OF al_Sub.IH, of x] show ?thesis by simp
  next
    case False
    have "edit (x # xs) (y # xs)" by (rule edit.substitution)
    with edits_Cons [OF al_Sub.IH, of y] have "(edit ^^ Suc n) (x # xs) (y # ys)"
      by (metis relpowp_Suc_I2)
    with False show ?thesis by simp
  qed
qed

lemma alignment_edit:
  "alignment m xs ys \<Longrightarrow> edit ys zs \<Longrightarrow> \<exists>m'\<le>Suc m. alignment m' xs zs"
proof (induction arbitrary: zs rule: alignment.induct)
  case al_Nil
  from al_Nil.prems obtain c where "zs = [c]" by (cases rule: edit.cases) auto
  then show ?case using al_Ins [OF alignment.al_Nil, of c] by auto
next
  case (al_Del n xs ys x)
  from al_Del.IH [OF al_Del.prems] obtain m' where "m' \<le> Suc n" "alignment m' xs zs" by auto
  then show ?case using alignment.al_Del [of m' xs zs x] by auto
next
  case (al_Ins n xs ys y)
  have base: "alignment (Suc n) xs (y # ys)" by (rule alignment.al_Ins [OF al_Ins.hyps])
  from al_Ins.prems show ?case
  proof (cases rule: edit.cases)
    case (insertion c)
    then show ?thesis using alignment.al_Ins [OF base, of c] by auto
  next
    case deletion
    have "n \<le> Suc (Suc n)" by simp
    with al_Ins.hyps deletion show ?thesis by blast
  next
    case (substitution c')
    have "Suc n \<le> Suc (Suc n)" by simp
    with alignment.al_Ins [OF al_Ins.hyps, of c'] substitution show ?thesis by blast
  next
    case (later zs')
    from al_Ins.IH [OF later(2)] obtain m' where "m' \<le> Suc n" "alignment m' xs zs'" by auto
    then show ?thesis using later(1) alignment.al_Ins [of m' xs zs' y] by auto
  qed
next
  case (al_Sub n xs ys x y)
  have base: "alignment (n + (if x = y then 0 else 1)) (x # xs) (y # ys)"
    by (rule alignment.al_Sub [OF al_Sub.hyps])
  from al_Sub.prems show ?case
  proof (cases rule: edit.cases)
    case (insertion c)
    then show ?thesis using alignment.al_Ins [OF base, of c] by auto
  next
    case deletion
    have "Suc n \<le> Suc (n + (if x = y then 0 else 1))" by simp
    with alignment.al_Del [OF al_Sub.hyps, of x] deletion show ?thesis by blast
  next
    case (substitution c')
    have "alignment (n + (if x = c' then 0 else 1)) (x # xs) (c' # ys)"
      by (rule alignment.al_Sub [OF al_Sub.hyps])
    moreover have "n + (if x = c' then 0 else 1) \<le> Suc (n + (if x = y then 0 else 1))" by simp
    ultimately show ?thesis using substitution by blast
  next
    case (later zs')
    from al_Sub.IH [OF later(2)] obtain m' where m': "m' \<le> Suc n" "alignment m' xs zs'" by auto
    have "alignment (m' + (if x = y then 0 else 1)) (x # xs) (y # zs')"
      by (rule alignment.al_Sub [OF m'(2)])
    moreover have "m' + (if x = y then 0 else 1) \<le> Suc (n + (if x = y then 0 else 1))"
      using m'(1) by simp
    ultimately show ?thesis using later(1) by blast
  qed
qed

lemma edits_alignment: "(edit ^^ n) xs ys \<Longrightarrow> \<exists>m\<le>n. alignment m xs ys"
proof (induction n arbitrary: ys)
  case 0
  then have "ys = xs" by simp
  moreover have "alignment 0 xs xs"
  proof (induction xs)
    case Nil
    show ?case by (rule alignment.al_Nil)
  next
    case (Cons a xs)
    from alignment.al_Sub [OF Cons, of a a] show ?case by simp
  qed
  ultimately show ?case by auto
next
  case (Suc n)
  then obtain zs where z: "(edit ^^ n) xs zs" "edit zs ys" by auto
  from Suc.IH [OF z(1)] obtain m where m: "m \<le> n" "alignment m xs zs" by auto
  from alignment_edit [OF m(2) z(2)] obtain m' where "m' \<le> Suc m" "alignment m' xs ys" by auto
  with m(1) show ?case by (meson Suc_le_mono le_trans)
qed

lemma editDistance_edits: "(edit ^^ editDistance xs ys) xs ys"
  by (rule alignment_edits [OF alignment_editDistance])

lemma editDistance_fewest_edits: "(edit ^^ n) xs ys \<Longrightarrow> editDistance xs ys \<le> n"
proof -
  assume "(edit ^^ n) xs ys"
  from edits_alignment [OF this] obtain m where "m \<le> n" "alignment m xs ys" by auto
  with editDistance_least [of m xs ys] show ?thesis by simp
qed

section \<open>\<open>levenshteinDistance\<close> computes the edit distance\<close>

lemma fold_upt_invariant:
  assumes "a \<le> b" and "I a m"
    and "\<And>i m. a \<le> i \<Longrightarrow> i < b \<Longrightarrow> I i m \<Longrightarrow> I (Suc i) (f i m)"
  shows "I b (fold f [a..<b] m)"
  using assms
proof (induction b)
  case 0
  then show ?case by simp
next
  case (Suc b)
  show ?case
  proof (cases "a = Suc b")
    case True
    with Suc.prems(2) show ?thesis by simp
  next
    case False
    with Suc.prems(1) have ab: "a \<le> b" by simp
    have "I b (fold f [a..<b] m)"
      using Suc.IH [OF ab Suc.prems(2)] Suc.prems(3) by simp
    then have "I (Suc b) (f b (fold f [a..<b] m))"
      using Suc.prems(3) [of b] ab by simp
    then show ?thesis using ab by simp
  qed
qed

lemma wf_new_matrix: "wf_matrix n2 n1 (new_matrix (n2 + 1) (n1 + 1))"
  by (simp add: wf_matrix_def new_matrix_def)

lemma wf_row: "wf_matrix n2 n1 m \<Longrightarrow> j \<le> n2 \<Longrightarrow> length (m ! j) = Suc n1"
  by (simp add: wf_matrix_def)

lemma wf_put: 
  assumes "wf_matrix n2 n1 m" shows "wf_matrix n2 n1 (put m j i v)"
proof -
  have len: "length (put m j i v) = Suc n2"
    using assms by (simp add: wf_matrix_def put_def)
  have "length row = Suc n1" if "row \<in> set (put m j i v)" for row
  proof -
    from that have "row \<in> insert ((m ! j)[i := Some v]) (set m)"
      using set_update_subset_insert [of m j "(m ! j)[i := Some v]"] by (auto simp: put_def)
    then show ?thesis
    proof
      assume "row = (m ! j)[i := Some v]"
      show ?thesis
      proof (cases "j < length m")
        case True
        then show ?thesis using assms \<open>row = _\<close> by (simp add: wf_matrix_def)
      next
        case False
        then have "put m j i v = m" by (simp add: put_def list_update_beyond)
        with that assms show ?thesis by (simp add: wf_matrix_def)
      qed
    next
      assume "row \<in> set m"
      with assms show ?thesis by (simp add: wf_matrix_def)
    qed
  qed
  with len show ?thesis by (simp add: wf_matrix_def)
qed

lemma put_nth:
  assumes "wf_matrix n2 n1 m" "j \<le> n2" "i \<le> n1" "j' \<le> n2" "i' \<le> n1"
  shows "put m j i v ! j' ! i' = (if j' = j \<and> i' = i then Some v else m ! j' ! i')"
proof -
  have lm: "length m = Suc n2" using assms(1) by (simp add: wf_matrix_def)
  have lr: "length (m ! j) = Suc n1" using assms(1,2) by (rule wf_row)
  show ?thesis
  proof (cases "j' = j")
    case True
    then have "put m j i v ! j' = (m ! j)[i := Some v]"
      using lm assms(2) by (simp add: put_def)
    then show ?thesis using True lr assms(3,5) by (simp add: nth_list_update)
  next
    case False
    then have "put m j i v ! j' = m ! j'"
      by (simp add: put_def)
    then show ?thesis using False by simp
  qed
qed

lemma filled_put:
  assumes f: "filled str1 str2 P m" and j: "j \<le> length str2" and i: "i \<le> length str1"
    and v: "v = target str1 str2 j i"
    and Q: "\<And>j' i'. Q j' i' \<Longrightarrow> P j' i' \<or> (j' = j \<and> i' = i)"
  shows "filled str1 str2 Q (put m j i v)"
proof -
  have wf: "wf_matrix (length str2) (length str1) m" using f by (simp add: filled_def)
  have "put m j i v ! j' ! i' = Some (target str1 str2 j' i')"
    if "j' \<le> length str2" "i' \<le> length str1" "Q j' i'" for j' i'
  proof (cases "j' = j \<and> i' = i")
    case True
    then show ?thesis using put_nth [OF wf j i that(1,2)] v by simp
  next
    case False
    with Q [OF that(3)] have "P j' i'" by simp
    then have "m ! j' ! i' = Some (target str1 str2 j' i')"
      using f that(1,2) by (simp add: filled_def)
    then show ?thesis using put_nth [OF wf j i that(1,2)] False by simp
  qed
  then show ?thesis using wf_put [OF wf] by (simp add: filled_def)
qed

lemma filled_nth:
  "filled str1 str2 P m \<Longrightarrow> j \<le> length str2 \<Longrightarrow> i \<le> length str1 \<Longrightarrow> P j i \<Longrightarrow>
   m ! j ! i = Some (target str1 str2 j i)"
  by (simp add: filled_def)

lemma target_row0: "i \<le> length str1 \<Longrightarrow> target str1 str2 0 i = i"
  by (simp add: target_def editDistance_Nil2)

lemma target_col0: "j \<le> length str2 \<Longrightarrow> target str1 str2 j 0 = j"
  by (simp add: target_def)

lemma target_step:
  assumes "i < length str1" "j < length str2"
  shows "target str1 str2 (Suc j) (Suc i) =
     min (min (target str1 str2 (Suc j) i + 1) (target str1 str2 j (Suc i) + 1))
         (target str1 str2 j i + (if str1 ! i = str2 ! j then 0 else 1))"
  using assms by (simp add: target_def take_Suc_conv_app_nth)


lemma filled_mono:
  "filled str1 str2 P m \<Longrightarrow>
   (\<And>j i. j \<le> length str2 \<Longrightarrow> i \<le> length str1 \<Longrightarrow> Q j i \<Longrightarrow> P j i) \<Longrightarrow> filled str1 str2 Q m"
  by (simp add: filled_def)

lemma fill_cell:
  assumes f: "filled str1 str2 (\<lambda>j' i'. j' = 0 \<or> i' = 0 \<or> j' < j \<or> (j' = j \<and> i' < i)) m"
    and j: "1 \<le> j" "j \<le> length str2" and i: "1 \<le> i" "i \<le> length str1"
  shows "cell_value str1 str2 m j i = target str1 str2 j i"
proof -
  obtain j0 i0 where ji: "j = Suc j0" "i = Suc i0"
    using j(1) i(1) by (metis One_nat_def Suc_le_D)
  have a: "m ! j ! (i - 1) = Some (target str1 str2 (Suc j0) i0)"
    using filled_nth [OF f, of j "i - 1"] j i ji by simp
  have b: "m ! (j - 1) ! i = Some (target str1 str2 j0 (Suc i0))"
    using filled_nth [OF f, of "j - 1" i] j i ji by simp
  have c: "m ! (j - 1) ! (i - 1) = Some (target str1 str2 j0 i0)"
    using filled_nth [OF f, of "j - 1" "i - 1"] j i ji by simp
  have "i0 < length str1" "j0 < length str2" using ji j i by simp_all
  from target_step [OF this] show ?thesis
    using a b c ji by (simp add: cell_value_def num_def)
qed

lemma fill_row_filled:
  assumes f: "filled str1 str2 (\<lambda>j' i'. j' = 0 \<or> i' = 0 \<or> j' < j) m"
    and j: "1 \<le> j" "j \<le> length str2"
  shows "filled str1 str2 (\<lambda>j' i'. j' = 0 \<or> i' = 0 \<or> j' < Suc j) (fill_row str1 str2 j m)"
proof -
  let ?I = "\<lambda>i m. filled str1 str2 (\<lambda>j' i'. j' = 0 \<or> i' = 0 \<or> j' < j \<or> (j' = j \<and> i' < i)) m"
  have start: "?I 1 m"
    by (rule filled_mono [OF f]) auto
  have step: "?I (Suc i) (put m' j i (cell_value str1 str2 m' j i))"
    if "1 \<le> i" "i < Suc (length str1)" "?I i m'" for i m'
  proof (rule filled_put [OF that(3) j(2)])
    show "i \<le> length str1" using that(2) by simp
    show "cell_value str1 str2 m' j i = target str1 str2 j i"
      using fill_cell [OF that(3) j that(1)] that(2) by simp
    show "\<And>j' i'. j' = 0 \<or> i' = 0 \<or> j' < j \<or> j' = j \<and> i' < Suc i \<Longrightarrow>
        (j' = 0 \<or> i' = 0 \<or> j' < j \<or> j' = j \<and> i' < i) \<or> j' = j \<and> i' = i"
      by auto
  qed
  have "?I (Suc (length str1)) (fold (\<lambda>i m. put m j i (cell_value str1 str2 m j i)) [1..<Suc (length str1)] m)"
    by (rule fold_upt_invariant [where I = ?I, OF _ start step]) simp_all
  then show ?thesis
    unfolding fill_row_def by (rule filled_mono) auto
qed

lemma levenshteinDistance_rev:
  "levenshteinDistance str1 str2 = Some (editDistance (rev str1) (rev str2))"
proof -
  define m0 where "m0 = new_matrix (length str2 + 1) (length str1 + 1)"
  define m1 where "m1 = fold (\<lambda>i m. put m 0 i i) [0..<Suc (length str1)] m0"
  define m2 where "m2 = fold (\<lambda>j m. put m j 0 j) [0..<Suc (length str2)] m1"
  define m3 where "m3 = fold (fill_row str1 str2) [1..<Suc (length str2)] m2"
  have f0: "filled str1 str2 (\<lambda>j' i'. j' = 0 \<and> i' < 0) m0"
    unfolding m0_def filled_def using wf_new_matrix by simp
  have f1: "filled str1 str2 (\<lambda>j' i'. j' = 0 \<and> i' < Suc (length str1)) m1"
    unfolding m1_def
  proof (rule fold_upt_invariant [where I = "\<lambda>i. filled str1 str2 (\<lambda>j' i'. j' = 0 \<and> i' < i)", OF _ f0])
    fix i m
    assume "i < Suc (length str1)" and f: "filled str1 str2 (\<lambda>j' i'. j' = 0 \<and> i' < i) m"
    then have i: "i \<le> length str1" by simp
    show "filled str1 str2 (\<lambda>j' i'. j' = 0 \<and> i' < Suc i) (put m 0 i i)"
      by (rule filled_put [OF f _ i]) (auto simp: target_row0 [OF i])
  qed simp
  have f1': "filled str1 str2 (\<lambda>j' i'. j' = 0 \<or> (i' = 0 \<and> j' < 0)) m1"
    by (rule filled_mono [OF f1]) auto
  have f2: "filled str1 str2 (\<lambda>j' i'. j' = 0 \<or> (i' = 0 \<and> j' < Suc (length str2))) m2"
    unfolding m2_def
  proof (rule fold_upt_invariant [where I = "\<lambda>j. filled str1 str2 (\<lambda>j' i'. j' = 0 \<or> (i' = 0 \<and> j' < j))", OF _ f1'])
    fix j m
    assume "j < Suc (length str2)" and f: "filled str1 str2 (\<lambda>j' i'. j' = 0 \<or> (i' = 0 \<and> j' < j)) m"
    then have j: "j \<le> length str2" by simp
    show "filled str1 str2 (\<lambda>j' i'. j' = 0 \<or> (i' = 0 \<and> j' < Suc j)) (put m j 0 j)"
      by (rule filled_put [OF f j]) (auto simp: target_col0 [OF j])
  qed simp
  have f2': "filled str1 str2 (\<lambda>j' i'. j' = 0 \<or> i' = 0 \<or> j' < 1) m2"
    by (rule filled_mono [OF f2]) auto
  have f3: "filled str1 str2 (\<lambda>j' i'. j' = 0 \<or> i' = 0 \<or> j' < Suc (length str2)) m3"
    unfolding m3_def
  proof (rule fold_upt_invariant [where I = "\<lambda>j. filled str1 str2 (\<lambda>j' i'. j' = 0 \<or> i' = 0 \<or> j' < j)", OF _ f2'])
    fix j m
    assume "1 \<le> j" "j < Suc (length str2)"
      and f: "filled str1 str2 (\<lambda>j' i'. j' = 0 \<or> i' = 0 \<or> j' < j) m"
    then show "filled str1 str2 (\<lambda>j' i'. j' = 0 \<or> i' = 0 \<or> j' < Suc j) (fill_row str1 str2 j m)"
      using fill_row_filled [OF f] by simp
  qed simp
  have "m3 ! length str2 ! length str1 = Some (target str1 str2 (length str2) (length str1))"
    by (rule filled_nth [OF f3]) simp_all
  then show ?thesis
    by (simp add: levenshteinDistance_def m0_def m1_def m2_def m3_def target_def Let_def)
qed

lemma levenshteinDistance_editDistance:
  "levenshteinDistance str1 str2 = Some (editDistance str1 str2)"
  by (simp add: levenshteinDistance_rev editDistance_rev)

section \<open>Lower-casing, trimming and the range of the score\<close>

lemma length_toLowerCase: "length (toLowerCase s) = length s"
  by (simp add: toLowerCase_def)

lemma similarity_by_formula:
  "similarity_by lower a b =
     (if a = [] \<and> b = [] then 1
      else 1 - of_nat (editDistance (lower a) (lower b))
               / of_nat (max (length a) (length b)))"
  by (auto simp: similarity_by_def Let_def levenshteinDistance_editDistance num_def)

lemma calculateSimilarity_formula:
  "calculateSimilarity a b =
     (if a = [] \<and> b = [] then 1
      else 1 - of_nat (editDistance (toLowerCase a) (toLowerCase b))
               / of_nat (max (length a) (length b)))"
  by (simp add: calculateSimilarity_def similarity_by_formula)




text \<open>
  The two models agree: on strings of code units below 256 the functions on UTF-16 code
  units are the functions on \<^typ>\<open>string\<close>.
\<close>

lemma lower_unit_of_char: "lower_unit (of_char c) = [of_char (lower_char c)]"
proof -
  have m: "(of_char c :: nat) mod 256 = of_char c" by simp
  have "(of_char c :: nat) \<noteq> 304"
  proof
    assume "(of_char c :: nat) = 304"
    with m have "(304 :: nat) mod 256 = 304" by simp
    then show False by simp
  qed
  then show ?thesis by (auto simp: lower_unit_def lower_char_def Let_def)
qed

lemma toLowerCase_utf16_of_char:
  "toLowerCase_utf16 (map of_char s) = map of_char (toLowerCase s)"
  by (induction s) (simp_all add: toLowerCase_utf16_def toLowerCase_def lower_unit_of_char)

lemma editDistance_map:
  "inj f \<Longrightarrow> editDistance (map f xs) (map f ys) = editDistance xs ys"
  by (induction xs ys rule: editDistance.induct) (simp_all add: inj_eq)

lemma calculateSimilarity_utf16_of_char:
  "calculateSimilarity_utf16 (map of_char s) (map of_char t) = calculateSimilarity s t"
proof -
  have "inj (of_char :: char \<Rightarrow> nat)"
    by (rule injI) (metis char_of_char)
  then show ?thesis
    by (simp add: calculateSimilarity_utf16_def calculateSimilarity_def similarity_by_formula
        toLowerCase_utf16_of_char editDistance_map)
qed

lemma lower_char_idem: "lower_char (lower_char c) = lower_char c"
  by (auto simp: lower_char_def Let_def)

lemma toLowerCase_idem: "toLowerCase (toLowerCase s) = toLowerCase s"
  by (simp add: toLowerCase_def lower_char_idem)

lemma set_trim: "set (trim s) \<subseteq> set s"
proof -
  have "set (trim s) \<subseteq> set (rev (dropWhile is_space s))"
    unfolding trim_def using set_dropWhileD by fastforce
  also have "\<dots> \<subseteq> set s" using set_dropWhileD by fastforce
  finally show ?thesis .
qed

lemma toLowerCase_trim: "toLowerCase (trim (toLowerCase s)) = trim (toLowerCase s)"
proof -
  have "lower_char c = c" if "c \<in> set (trim (toLowerCase s))" for c
  proof -
    from that set_trim have "c \<in> set (toLowerCase s)" by blast
    then show ?thesis by (auto simp: toLowerCase_def lower_char_idem)
  qed
  then show ?thesis unfolding toLowerCase_def [of "trim _"] by (simp add: map_idI)
qed

lemma max_length_pos: "\<not> (a = [] \<and> b = []) \<Longrightarrow> 0 < max (length a) (length b)"
  by (cases a; cases b; simp)

lemma calculateSimilarity_le_1: "calculateSimilarity a b \<le> 1"
  by (simp add: calculateSimilarity_formula)

lemma calculateSimilarity_ge_0: "0 \<le> calculateSimilarity a b"
proof -
  have "editDistance (toLowerCase a) (toLowerCase b) \<le> max (length a) (length b)"
    using editDistance_le_max [of "toLowerCase a" "toLowerCase b"] by (simp add: length_toLowerCase)
  then have "(of_nat (editDistance (toLowerCase a) (toLowerCase b)) :: rat) \<le> of_nat (max (length a) (length b))"
    using of_nat_le_iff by blast
  then show ?thesis
    using max_length_pos [of a b]
    by (cases "a = [] \<and> b = []") (simp_all add: calculateSimilarity_formula divide_le_eq_1)
qed

lemma calculateSimilarity_eq_1:
  assumes "calculateSimilarity a b = 1"
  shows "toLowerCase a = toLowerCase b"
proof (cases "a = [] \<and> b = []")
  case True
  then show ?thesis by simp
next
  case False
  then have pos: "0 < max (length a) (length b)" by (rule max_length_pos)
  from assms False have "(of_nat (editDistance (toLowerCase a) (toLowerCase b)) :: rat)
             / of_nat (max (length a) (length b)) = 0"
    by (simp add: calculateSimilarity_formula)
  with pos False have "editDistance (toLowerCase a) (toLowerCase b) = 0"
    by auto
  then show ?thesis by (simp add: editDistance_eq_0)
qed

lemma calculateSimilarity_less_1:
  assumes "toLowerCase a = a" "toLowerCase b = b" "a \<noteq> b"
  shows "calculateSimilarity a b < 1"
  using assms calculateSimilarity_eq_1 [of a b] calculateSimilarity_le_1 [of a b]
  by (metis order_le_less)

section \<open>Sorted, de-duplicated, truncated lists\<close>

lemma zip_upt_nth: "zip [0..<length xs] xs = map (\<lambda>i. (i, xs ! i)) [0..<length xs]"
proof -
  have "zip [0..<length xs] xs = zip [0..<length xs] (map (nth xs) [0..<length xs])"
    by (simp add: map_nth)
  also have "\<dots> = map (\<lambda>i. (i, xs ! i)) [0..<length xs]"
    by (simp add: zip_map2 zip_same_conv_map)
  finally show ?thesis .
qed

lemma unique_names_nth:
  "unique_names self = map (nth self) (filter (first_index self) [0..<length self])"
proof -
  have "first_index self = (\<lambda>i. int i = findIndex (\<lambda>t. name t = name (self ! i)) self)"
    by (rule ext) (simp add: first_index_def)
  then show ?thesis
    by (simp add: unique_names_def enumerate_eq_zip zip_upt_nth filter_map comp_def)
qed

lemma set_unique_names: "set (unique_names xs) \<subseteq> set xs"
  by (auto simp: unique_names_nth)

lemma distinct_unique_names: "distinct (map name (unique_names xs))"
proof -
  have "inj_on (\<lambda>i. name (xs ! i)) (set (filter (first_index xs) [0..<length xs]))"
  proof (rule inj_onI)
    fix i j
    assume "i \<in> set (filter (first_index xs) [0..<length xs])"
      "j \<in> set (filter (first_index xs) [0..<length xs])" "name (xs ! i) = name (xs ! j)"
    then have "int i = int j" by (simp add: first_index_def)
    then show "i = j" by simp
  qed
  then show ?thesis
    by (simp add: unique_names_nth distinct_map comp_def)
qed

lemma sorted_wrt_unique_names:
  assumes "sorted_wrt R xs" shows "sorted_wrt R (unique_names xs)"
proof -
  have "sorted_wrt (<) (filter (first_index xs) [0..<length xs])"
    by (rule sorted_wrt_filter) simp
  then have "sorted_wrt (\<lambda>i j. R (xs ! i) (xs ! j)) (filter (first_index xs) [0..<length xs])"
  proof (rule sorted_wrt_mono_rel [rotated])
    fix i j
    assume "i \<in> set (filter (first_index xs) [0..<length xs])"
      "j \<in> set (filter (first_index xs) [0..<length xs])" "i < j"
    then show "R (xs ! i) (xs ! j)"
      using assms by (simp add: sorted_wrt_iff_nth_less)
  qed
  then show ?thesis by (simp add: unique_names_nth sorted_wrt_map)
qed

lemma length_unique_names: "length (unique_names xs) \<le> length xs"
  using length_filter_le [of "first_index xs" "[0..<length xs]"] by (simp add: unique_names_nth)

lemma sorted_sort_by_similarity:
  "sorted_wrt (\<lambda>a b. similarity a \<ge> similarity b) (sort_by_similarity xs)"
proof -
  have "sorted (map (\<lambda>s. - similarity s) (sort_key (\<lambda>s. - similarity s) xs))"
    by (rule sorted_sort_key)
  then show ?thesis by (simp add: sort_by_similarity_def sorted_map)
qed

lemma set_sort_by_similarity: "set (sort_by_similarity xs) = set xs"
  by (simp add: sort_by_similarity_def)

lemma distinct_map_insort_key:
  "distinct (map g (insort_key f x xs)) = (g x \<notin> g ` set xs \<and> distinct (map g xs))"
  by (induction xs) (auto simp: set_insort_key)

lemma distinct_map_sort_key: "distinct (map g (sort_key f xs)) = distinct (map g xs)"
  by (induction xs) (simp_all add: distinct_map_insort_key)

lemma distinct_sort_by_similarity:
  "distinct (map name (sort_by_similarity xs)) = distinct (map name xs)"
  by (simp add: sort_by_similarity_def distinct_map_sort_key)

lemma set_slice0: "set (slice0 xs e) \<subseteq> set xs"
  by (simp add: slice0_def Let_def set_take_subset)

lemma distinct_slice0: "distinct (map f xs) \<Longrightarrow> distinct (map f (slice0 xs e))"
  by (simp add: slice0_def Let_def take_map [symmetric] del: take_map)

lemma sorted_wrt_slice0: "sorted_wrt R xs \<Longrightarrow> sorted_wrt R (slice0 xs e)"
  by (simp add: slice0_def Let_def sorted_wrt_take)

lemma length_slice0: "0 \<le> e \<Longrightarrow> int (length (slice0 xs e)) \<le> e"
  by (simp add: slice0_def Let_def)

lemma length_slice0_3: "length (slice0 xs 3) \<le> 3"
  using length_slice0 [of 3 xs] by simp

lemma findIndex_first: "findIndex P xs = int i \<Longrightarrow> j < i \<Longrightarrow> \<not> P (xs ! j)"
proof (induction xs arbitrary: i j)
  case Nil
  then show ?case by simp
next
  case (Cons x xs)
  show ?case
  proof (cases "P x")
    case True
    with Cons.prems show ?thesis by simp
  next
    case False
    with Cons.prems obtain i' where i': "i = Suc i'" "findIndex P xs = int i'"
      by (cases i) (auto simp: Let_def split: if_splits)
    show ?thesis
    proof (cases j)
      case 0
      with False show ?thesis by simp
    next
      case (Suc j')
      with Cons.prems(2) i' have "j' < i'" by simp
      from Cons.IH [OF i'(2) this] Suc show ?thesis by simp
    qed
  qed
qed

lemma unique_names_best:
  assumes srt: "sorted_wrt R xs" and s: "s \<in> set (unique_names xs)" and c: "c \<in> set xs"
    and nm: "name c = name s"
  shows "c = s \<or> R s c"
proof -
  from s obtain i where i: "i < length xs" "first_index xs i" "s = xs ! i"
    by (auto simp: unique_names_nth)
  from c obtain j where j: "j < length xs" "c = xs ! j"
    by (auto simp: in_set_conv_nth)
  have "\<not> j < i"
    using findIndex_first [of "\<lambda>t. name t = name (xs ! i)" xs i j] i j nm
    by (auto simp: first_index_def)
  then consider "j = i" | "i < j" by linarith
  then show ?thesis
  proof cases
    case 1
    with i j show ?thesis by simp
  next
    case 2
    with srt i j show ?thesis by (simp add: sorted_wrt_iff_nth_less)
  qed
qed

section \<open>The loop of \<open>findBestMatch\<close>\<close>

lemma scored_Nil: "scored threshold q [] st = st"
  by (simp add: scored_def)

lemma scored_Cons:
  "scored threshold q (d # db) st =
     scored threshold q db (fold (consider_variation threshold q d) (variations d) st)"
  by (simp add: scored_def)

lemma scan_cases:
  "scan threshold q db st =
     (case exact_hit q db of
        Some d \<Rightarrow> exact_result d
      | None \<Rightarrow> fuzzy_result threshold (scored threshold q db st))"
  by (induction db arbitrary: st) (simp_all add: exact_hit_def scored_Nil scored_Cons split: option.splits)

lemma exact_hit_None: "exact_hit q db = None \<longleftrightarrow> (\<forall>d\<in>set db. q \<notin> set (variations d))"
  by (auto simp: exact_hit_def find_None_iff)

lemma isExact_scan: "isExact (scan threshold q db st) \<longleftrightarrow> exact_hit q db \<noteq> None"
  by (simp add: scan_cases exact_result_def fuzzy_result_def Let_def split: option.splits)

lemma table_owner:
  "list_all (\<lambda>d. list_all (\<lambda>v. exact_hit v destinationsDB = Some d) (variations d)) destinationsDB"
  by code_simp

lemma table_lower:
  "list_all (\<lambda>d. list_all (\<lambda>v. toLowerCase v = v) (variations d)) destinationsDB"
  by code_simp

lemma exact_hit_table:
  "d \<in> set destinationsDB \<Longrightarrow> v \<in> set (variations d) \<Longrightarrow> exact_hit v destinationsDB = Some d"
  using table_owner by (simp add: list_all_iff)

lemma variations_lower:
  "d \<in> set destinationsDB \<Longrightarrow> v \<in> set (variations d) \<Longrightarrow> toLowerCase v = v"
  using table_lower by (simp add: list_all_iff)

lemma findBestMatch_fuzzy_hasGoodMatch:
  "\<not> isExact (findBestMatch query threshold) \<Longrightarrow>
   hasGoodMatch (findBestMatch query threshold)
     = Some (confidence (findBestMatch query threshold) \<ge> threshold)"
  by (simp add: findBestMatch_def scan_cases exact_result_def fuzzy_result_def Let_def
           split: option.splits)

lemma findBestMatch_exact_no_hasGoodMatch:
  "isExact (findBestMatch query threshold) \<Longrightarrow> hasGoodMatch (findBestMatch query threshold) = None"
  by (simp add: findBestMatch_def scan_cases exact_result_def fuzzy_result_def Let_def
           split: option.splits)

lemma suggestions_fuzzy_result:
  "suggestions (fuzzy_result threshold st) = slice0 (unique_names (sort_by_similarity (collected st))) 3"
  by (simp add: fuzzy_result_def Let_def)

lemma suggestions_findBestMatch:
  "suggestions (findBestMatch query threshold) =
     (if isExact (findBestMatch query threshold) then []
      else slice0 (unique_names (sort_by_similarity (candidates query threshold))) 3)"
  by (simp add: findBestMatch_def scan_cases candidates_def exact_result_def fuzzy_result_def Let_def
           split: option.splits)

lemma collect_len: "length (collect q db) \<le> length db"
  by (induction db) (auto split: option.splits)

lemma consider_variation_below_1:
  assumes "calculateSimilarity q v < 1" "bestScore st < 1" "\<forall>s\<in>set (collected st). similarity s < 1"
  shows "bestScore (consider_variation threshold q d v st) < 1
       \<and> (\<forall>s\<in>set (collected (consider_variation threshold q d v st)). similarity s < 1)"
  using assms by (auto simp: consider_variation_def Let_def)

lemma fold_consider_variation_below_1:
  assumes "\<forall>v\<in>set vs. calculateSimilarity q v < 1" "bestScore st < 1"
    "\<forall>s\<in>set (collected st). similarity s < 1"
  shows "bestScore (fold (consider_variation threshold q d) vs st) < 1
       \<and> (\<forall>s\<in>set (collected (fold (consider_variation threshold q d) vs st)). similarity s < 1)"
  using assms
proof (induction vs arbitrary: st)
  case Nil
  then show ?case by simp
next
  case (Cons v vs)
  have "bestScore (consider_variation threshold q d v st) < 1
       \<and> (\<forall>s\<in>set (collected (consider_variation threshold q d v st)). similarity s < 1)"
    by (rule consider_variation_below_1) (use Cons.prems in simp_all)
  with Cons.IH [of "consider_variation threshold q d v st"] Cons.prems(1)
  show ?case by simp
qed

lemma scored_below_1:
  assumes "\<forall>d\<in>set db. \<forall>v\<in>set (variations d). calculateSimilarity q v < 1" "bestScore st < 1"
    "\<forall>s\<in>set (collected st). similarity s < 1"
  shows "bestScore (scored threshold q db st) < 1
       \<and> (\<forall>s\<in>set (collected (scored threshold q db st)). similarity s < 1)"
  using assms
proof (induction db arbitrary: st)
  case Nil
  then show ?case by (simp add: scored_Nil)
next
  case (Cons d db)
  have "bestScore (fold (consider_variation threshold q d) (variations d) st) < 1
       \<and> (\<forall>s\<in>set (collected (fold (consider_variation threshold q d) (variations d) st)). similarity s < 1)"
    by (rule fold_consider_variation_below_1) (use Cons.prems in simp_all)
  with Cons.IH [of "fold (consider_variation threshold q d) (variations d) st"] Cons.prems(1)
  show ?case by (simp add: scored_Cons)
qed

lemma table_scores_below_1:
  assumes "exact_hit (trim (toLowerCase query)) destinationsDB = None"
  shows "\<forall>d\<in>set destinationsDB. \<forall>v\<in>set (variations d).
           calculateSimilarity (trim (toLowerCase query)) v < 1"
proof (intro ballI)
  fix d v
  assume d: "d \<in> set destinationsDB" and v: "v \<in> set (variations d)"
  from assms d v have "trim (toLowerCase query) \<noteq> v"
    by (auto simp: exact_hit_None)
  then show "calculateSimilarity (trim (toLowerCase query)) v < 1"
    by (rule calculateSimilarity_less_1 [OF toLowerCase_trim variations_lower [OF d v]])
qed

lemma findBestMatch_fuzzy:
  assumes "\<not> isExact (findBestMatch query threshold)"
  shows "confidence (findBestMatch query threshold) < 1
       \<and> (\<forall>s\<in>set (suggestions (findBestMatch query threshold)). similarity s < 1)"
proof -
  let ?q = "trim (toLowerCase query)"
  let ?st = "scored threshold ?q destinationsDB \<lparr>bestMatch = None, bestScore = 0, collected = []\<rparr>"
  from assms have none: "exact_hit ?q destinationsDB = None"
    by (simp add: findBestMatch_def isExact_scan)
  have inv: "bestScore ?st < 1 \<and> (\<forall>s\<in>set (collected ?st). similarity s < 1)"
    by (rule scored_below_1 [OF table_scores_below_1 [OF none]]) simp_all
  have r: "findBestMatch query threshold = fuzzy_result threshold ?st"
    by (simp add: findBestMatch_def scan_cases none)
  have "set (suggestions (fuzzy_result threshold ?st)) \<subseteq> set (collected ?st)"
    unfolding suggestions_fuzzy_result
    using set_slice0 set_unique_names set_sort_by_similarity by (metis subset_trans)
  with inv show ?thesis
    unfolding r by (auto simp: fuzzy_result_def Let_def)
qed

section \<open>MatchEngine: the claims\<close>




text \<open>
  Claim C7. A query whose lower-cased and trimmed form is a variation of a record of the
  table gets that record's canonical name, confidence 1, \<open>isExact\<close> and no
  suggestions, whatever the threshold; the query \<open>paris\<close> gets \<open>Paris\<close>.
\<close>

theorem findBestMatch_exact:
  "d \<in> set destinationsDB \<and> trim (toLowerCase query) \<in> set (variations d) \<longrightarrow>
     destination (findBestMatch query threshold) = Some (name d)
   \<and> confidence (findBestMatch query threshold) = 1
   \<and> isExact (findBestMatch query threshold) = True
   \<and> suggestions (findBestMatch query threshold) = []"
  by (auto simp: findBestMatch_def scan_cases exact_hit_table exact_result_def)

theorem findBestMatch_exact_witness:
  "\<lparr>name = ''Paris'', country = ''France'',
     variations = [''paris'', ''pariis'', ''pariz'', ''parris'', ''pariss'', ''parise'', ''paries'']\<rparr>
     \<in> set destinationsDB
   \<and> trim (toLowerCase ''paris'') = ''paris''
   \<and> destination (findBestMatch ''paris'' (3/5)) = Some ''Paris''
   \<and> confidence (findBestMatch ''paris'' (3/5)) = 1
   \<and> isExact (findBestMatch ''paris'' (3/5)) = True
   \<and> suggestions (findBestMatch ''paris'' (3/5)) = []"
proof -
  let ?d = "\<lparr>name = ''Paris'', country = ''France'',
     variations = [''paris'', ''pariis'', ''pariz'', ''parris'', ''pariss'', ''parise'', ''paries'']\<rparr>"
  have a: "?d \<in> set destinationsDB" by (simp add: destinationsDB_def)
  have b: "trim (toLowerCase ''paris'') = ''paris''" by code_simp
  have c: "trim (toLowerCase ''paris'') \<in> set (variations ?d)" by (simp add: b)
  from findBestMatch_exact [of ?d "''paris''" "3/5"] a b c show ?thesis by simp
qed

text \<open>
  Claim C4, at the query \<open>paris\<close>: the result of the exact-match path has confidence 1
  and no \<open>hasGoodMatch\<close> property at all, where the claim wants it to be true.
\<close>

theorem findBestMatch_exact_hasGoodMatch:
  "isExact (findBestMatch ''paris'' (3/5)) = True
   \<and> confidence (findBestMatch ''paris'' (3/5)) = 1
   \<and> hasGoodMatch (findBestMatch ''paris'' (3/5)) = None"
  by code_simp

text \<open>
  Claim C8. The suggestions of \<open>findBestMatch\<close> have pairwise different names, are in
  descending order of similarity, are at most 3, and each is at least as similar as any
  candidate of the same name; the suggestions of \<open>getDestinationSuggestions\<close> have
  pairwise different names (so at most one per record), are in descending order of
  similarity, and are at most \<open>limit\<close> for a limit that is not negative.
\<close>

theorem suggestion_lists:
  "distinct (map name (suggestions (findBestMatch query threshold)))
   \<and> sorted_wrt (\<lambda>a b. similarity a \<ge> similarity b) (suggestions (findBestMatch query threshold))
   \<and> length (suggestions (findBestMatch query threshold)) \<le> 3
   \<and> (\<forall>s\<in>set (suggestions (findBestMatch query threshold)).
        \<forall>c\<in>set (candidates query threshold). name c = name s \<longrightarrow> similarity c \<le> similarity s)
   \<and> distinct (map name (getDestinationSuggestions query limit))
   \<and> sorted_wrt (\<lambda>a b. similarity a \<ge> similarity b) (getDestinationSuggestions query limit)
   \<and> (0 \<le> limit \<longrightarrow> int (length (getDestinationSuggestions query limit)) \<le> limit)"
proof (intro conjI)
  let ?r = "findBestMatch query threshold"
  let ?c = "sort_by_similarity (candidates query threshold)"
  show "distinct (map name (suggestions ?r))"
    by (simp add: suggestions_findBestMatch distinct_slice0 distinct_unique_names)
  show "sorted_wrt (\<lambda>a b. similarity a \<ge> similarity b) (suggestions ?r)"
    by (simp add: suggestions_findBestMatch sorted_wrt_slice0 sorted_wrt_unique_names
        sorted_sort_by_similarity)
  show "length (suggestions ?r) \<le> 3"
    by (simp add: suggestions_findBestMatch length_slice0_3)
  show "\<forall>s\<in>set (suggestions ?r). \<forall>c\<in>set (candidates query threshold).
          name c = name s \<longrightarrow> similarity c \<le> similarity s"
  proof (intro ballI impI)
    fix s c
    assume s: "s \<in> set (suggestions ?r)" and c: "c \<in> set (candidates query threshold)"
      and nm: "name c = name s"
    from s have "s \<in> set (slice0 (unique_names ?c) 3)"
      by (simp add: suggestions_findBestMatch split: if_splits)
    then have s': "s \<in> set (unique_names ?c)"
      by (rule subsetD [OF set_slice0])
    from c have c': "c \<in> set ?c" by (simp add: set_sort_by_similarity)
    from unique_names_best [OF sorted_sort_by_similarity s' c' nm]
    show "similarity c \<le> similarity s" by (rule disjE) simp_all
  qed
  let ?g = "getDestinationSuggestions query limit"
  show "distinct (map name ?g)"
    by (simp add: getDestinationSuggestions_def Let_def distinct_slice0
        distinct_sort_by_similarity distinct_unique_names)
  show "sorted_wrt (\<lambda>a b. similarity a \<ge> similarity b) ?g"
    by (simp add: getDestinationSuggestions_def Let_def sorted_wrt_slice0 sorted_sort_by_similarity)
  show "0 \<le> limit \<longrightarrow> int (length ?g) \<le> limit"
    by (simp add: getDestinationSuggestions_def Let_def length_slice0)
qed

theorem suggestion_lists_witness:
  "(0::int) \<le> 5
   \<and> getDestinationSuggestions ''lon'' 5 =
       [\<lparr>name = ''London'', country = ''United Kingdom'', similarity = 1 / 2\<rparr>,
        \<lparr>name = ''Barcelona'', country = ''Spain'', similarity = 1 / 3\<rparr>]
   \<and> int (length (getDestinationSuggestions ''lon'' 5)) \<le> 5
   \<and> distinct (map name (getDestinationSuggestions ''lon'' 5))
   \<and> length (suggestions (findBestMatch ''lon'' (3/5))) \<le> 3"
proof -
  have lon: "getDestinationSuggestions ''lon'' 5 =
       [\<lparr>name = ''London'', country = ''United Kingdom'', similarity = 1 / 2\<rparr>,
        \<lparr>name = ''Barcelona'', country = ''Spain'', similarity = 1 / 3\<rparr>]"
    by code_simp
  have "int (length (getDestinationSuggestions ''lon'' 5)) \<le> 5
      \<and> distinct (map name (getDestinationSuggestions ''lon'' 5))
      \<and> length (suggestions (findBestMatch ''lon'' (3/5))) \<le> 3"
    using suggestion_lists [of "''lon''" "3/5" 5] by simp
  with lon show ?thesis by simp
qed

text \<open>
  Claim C10. A result of \<open>findBestMatch\<close> that is not exact has a confidence below 1
  and only suggestions of similarity below 1; so a confidence of 1 comes from the
  exact-match path only. The proof uses that every variation of the table is in lower
  case (\<open>table_lower\<close>).
\<close>

theorem confidence_1_only_exact:
  "(isExact (findBestMatch query threshold) = False \<longrightarrow>
      confidence (findBestMatch query threshold) < 1
      \<and> (\<forall>s\<in>set (suggestions (findBestMatch query threshold)). similarity s < 1))
   \<and> (confidence (findBestMatch query threshold) = 1 \<longrightarrow> isExact (findBestMatch query threshold))"
proof (cases "isExact (findBestMatch query threshold)")
  case True
  then show ?thesis by simp
next
  case False
  from findBestMatch_fuzzy [OF False] False show ?thesis by simp
qed

theorem confidence_1_only_exact_witness:
  "isExact (findBestMatch ''londom'' (3/5)) = False
   \<and> confidence (findBestMatch ''londom'' (3/5)) < 1"
proof -
  have "exact_hit (trim (toLowerCase ''londom'')) destinationsDB = None"
    by code_simp
  then have "isExact (findBestMatch ''londom'' (3/5)) = False"
    by (simp add: findBestMatch_def isExact_scan)
  with confidence_1_only_exact [of "''londom''" "3/5"] show ?thesis by simp
qed

section \<open>FetchCache: the steps of \<open>fetchNow\<close>\<close>

lemma key_eval: "key ''/a'' (JObj []) = Some ''/a|{}''" "key ''/b'' (JObj []) = Some ''/b|{}''"
  by (simp_all add: key_def optionsString_def default_options_def)

lemma stale_success_invisible:
  assumes "fetchToken h \<noteq> currentToken req"
  shows "snd (fetchNow_settle req (Json json) now (cache, h)) = h"
  using assms by (simp add: fetchNow_settle_def thrown_def finally_block_def)

lemma stale_never_touches_loading_data:
  assumes "fetchToken h \<noteq> currentToken req"
  shows "data (snd (fetchNow_settle req out now (cache, h))) = data h
       \<and> loading (snd (fetchNow_settle req out now (cache, h))) = loading h"
  using assms
  by (cases out) (simp_all add: fetchNow_settle_def thrown_def finally_block_def)

lemma ttl_default: "ttl (JObj []) = 300000"
  by (simp add: ttl_def default_options_def)

lemma fetchNow_fresh:
  assumes "key url options = Some k" "cache k = Some entry" "now - timestamp entry < ttl options"
    "options \<noteq> JNull"
  shows "fetchNow_begin url options now (cache, h) =
           ((cache, h\<lparr>fetchToken := fetchToken h + 1, data := Some (entry_data entry),
                       loading := False\<rparr>), None)"
  using assms by (simp add: fetchNow_begin_def Let_def)

lemma fetchNow_absent:
  assumes "key url options = Some k" "cache k = None"
  shows "fetchNow_begin url options now (cache, h) =
           ((cache, h\<lparr>fetchToken := fetchToken h + 1, loading := True, error := None\<rparr>),
            Some \<lparr>req_url = url, req_key = k, currentToken = fetchToken h + 1\<rparr>)"
  using assms by (simp add: fetchNow_begin_def Let_def)

lemma fetchNow_stale:
  assumes "key url options = Some k" "cache k = Some entry" "\<not> now - timestamp entry < ttl options"
    "options \<noteq> JNull"
  shows "fetchNow_begin url options now (cache, h) =
           ((cache, h\<lparr>fetchToken := fetchToken h + 1, loading := True, error := None\<rparr>),
            Some \<lparr>req_url = url, req_key = k, currentToken = fetchToken h + 1\<rparr>)"
  using assms by (simp add: fetchNow_begin_def Let_def)

lemma fetchNow_no_url: "fetchNow_begin [] options now w = (w, None)"
  by (simp add: fetchNow_begin_def key_def split: prod.splits)

lemma key_Some: "url \<noteq> [] \<Longrightarrow> key url options = Some (url @ CHR ''|'' # optionsString options)"
  by (simp add: key_def)

lemma digits_404: "digits 404 = ''404''"
  by code_simp

lemma serialize_drops_undefined:
  "serialize (JObj (ps @ (k, JUndefined) # qs)) = serialize (JObj (ps @ qs))"
  by simp

text \<open>
  The round trip of the cache: once a resolve has stored its answer, a resolve within the
  staleness window is served from the cache; after \<open>refetch\<close> the entry is gone, the
  dependency array of the effect has changed, and the next resolve issues a request, at
  any time and for any staleness.
\<close>

lemma refetch_round_trip:
  "url \<noteq> [] \<and> fetchNow_begin url options t0 w0 = (w1, Some req) \<longrightarrow>
     (let w2 = fetchNow_settle req (Json json) t1 w1;
          w3 = refetch url options w2
      in key url options = Some (req_key req)
       \<and> fst w2 (req_key req) = Some \<lparr>entry_data = json, timestamp = t1\<rparr>
       \<and> (options \<noteq> JNull \<and> now - t1 < ttl options
            \<longrightarrow> snd (fetchNow_begin url options now w2) = None)
       \<and> fst w3 (req_key req) = None
       \<and> dependencies url fid deps (snd w3) \<noteq> dependencies url fid' deps (snd w2)
       \<and> snd (fetchNow_begin url options now w3)
           = Some \<lparr>req_url = url, req_key = req_key req,
                   currentToken = fetchToken (snd w3) + 1\<rparr>)"
proof (intro impI, elim conjE)
  assume url: "url \<noteq> []" and b: "fetchNow_begin url options t0 w0 = (w1, Some req)"
  obtain c0 h0 where w0: "w0 = (c0, h0)" by (cases w0)
  obtain c1 h1 where w1: "w1 = (c1, h1)" by (cases w1)
  let ?k = "url @ CHR ''|'' # optionsString options"
  have k: "key url options = Some ?k" using url by (rule key_Some)
  have rk: "req_key req = ?k"
    using b w0 k by (auto simp: fetchNow_begin_def Let_def split: option.splits if_splits)
  define w2 where "w2 = fetchNow_settle req (Json json) t1 w1"
  define w3 where "w3 = refetch url options w2"
  obtain c2 h2 where w2c: "w2 = (c2, h2)" by (cases w2)
  have c2: "c2 ?k = Some \<lparr>entry_data = json, timestamp = t1\<rparr>"
    using w2c w1 rk by (auto simp: w2_def fetchNow_settle_def thrown_def)
  have w3c: "w3 = (c2(?k := None), h2\<lparr>refetchIndex := refetchIndex h2 + 1\<rparr>)"
    by (simp add: w3_def refetch_def w2c k)
  have hit: "snd (fetchNow_begin url options now w2) = None"
    if "options \<noteq> JNull" "now - t1 < ttl options"
    unfolding w2c
    using fetchNow_fresh [where cache = c2 and h = h2 and now = now, OF k c2] that by simp
  have miss: "snd (fetchNow_begin url options now w3)
           = Some \<lparr>req_url = url, req_key = ?k, currentToken = fetchToken (snd w3) + 1\<rparr>"
    unfolding w3c
    using fetchNow_absent [where cache = "c2(?k := None)" and now = now, OF k] by simp
  have deps: "dependencies url fid deps (snd w3) \<noteq> dependencies url fid' deps (snd w2)"
    by (simp add: w3c w2c dependencies_def)
  show "let w2 = fetchNow_settle req (Json json) t1 w1;
          w3 = refetch url options w2
      in key url options = Some (req_key req)
       \<and> fst w2 (req_key req) = Some \<lparr>entry_data = json, timestamp = t1\<rparr>
       \<and> (options \<noteq> JNull \<and> now - t1 < ttl options
            \<longrightarrow> snd (fetchNow_begin url options now w2) = None)
       \<and> fst w3 (req_key req) = None
       \<and> dependencies url fid deps (snd w3) \<noteq> dependencies url fid' deps (snd w2)
       \<and> snd (fetchNow_begin url options now w3)
           = Some \<lparr>req_url = url, req_key = req_key req,
                   currentToken = fetchToken (snd w3) + 1\<rparr>"
    unfolding Let_def w2_def [symmetric] w3_def [symmetric]
    using k rk c2 hit miss deps by (simp add: w2c w3c)
qed

lemma refetch_round_trip_at_a:
  "''/a'' \<noteq> []
   \<and> fetchNow_begin ''/a'' (JObj []) 0 (Map.empty :: string cache, initial_state)
       = ((Map.empty, initial_state\<lparr>fetchToken := 1, loading := True\<rparr>), Some req_a)
   \<and> fst (fetchNow_settle req_a (Json ''A'') 5
            (Map.empty, initial_state\<lparr>fetchToken := 1, loading := True\<rparr>)) ''/a|{}''
       = Some \<lparr>entry_data = ''A'', timestamp = 5\<rparr>
   \<and> fst (refetch ''/a'' (JObj [])
            (fetchNow_settle req_a (Json ''A'') 5
               (Map.empty, initial_state\<lparr>fetchToken := 1, loading := True\<rparr>))) ''/a|{}''
       = None
   \<and> snd (fetchNow_begin ''/a'' (JObj []) 10
            (refetch ''/a'' (JObj [])
               (fetchNow_settle req_a (Json ''A'') 5
                  (Map.empty, initial_state\<lparr>fetchToken := 1, loading := True\<rparr>))))
       = Some \<lparr>req_url = ''/a'', req_key = ''/a|{}'', currentToken = 2\<rparr>"
proof -
  let ?w1 = "(Map.empty :: string cache, initial_state\<lparr>fetchToken := 1, loading := True\<rparr>)"
  have b: "fetchNow_begin ''/a'' (JObj []) 0 (Map.empty :: string cache, initial_state)
       = (?w1, Some req_a)"
    by (simp add: fetchNow_begin_def key_eval Let_def initial_state_def req_a_def)
  have u: "''/a'' \<noteq> []" by simp
  from refetch_round_trip [where url = "''/a''" and options = "JObj []" and ?t0.0 = 0
      and ?w0.0 = "(Map.empty, initial_state)" and ?w1.0 = ?w1 and req = req_a
      and json = "''A''" and ?t1.0 = 5 and now = 10 and deps = "[] :: nat list"
      and fid = "0 :: nat" and fid' = "0 :: nat"] u b
  show ?thesis
    by (simp add: Let_def req_a_def refetch_def fetchNow_settle_def thrown_def
        finally_block_def initial_state_def key_eval)
qed

lemma refetch_sets_no_state:
  "data (snd (refetch url options (cache, h))) = data h
   \<and> loading (snd (refetch url options (cache, h))) = loading h
   \<and> error (snd (refetch url options (cache, h))) = error h
   \<and> fetchToken (snd (refetch url options (cache, h))) = fetchToken h"
  by (simp add: refetch_def)

section \<open>\<open>JSON.stringify\<close> is one-to-one on JSON values\<close>

lemma digit_char_cases:
  assumes "d < 10"
  shows "d = 0 \<or> d = 1 \<or> d = 2 \<or> d = 3 \<or> d = 4 \<or> d = 5 \<or> d = 6 \<or> d = 7 \<or> d = 8 \<or> d = (9::nat)"
  using assms by arith

lemma is_digit_digit_char: "d < 10 \<Longrightarrow> is_digit (digit_char d)"
  using digit_char_cases [of d] by (auto simp: is_digit_def digit_char_def)

lemma distinct_digit_chars: "distinct ''0123456789abcdef''"
  by simp

lemma digit_char_inj:
  assumes "a < 16" "b < 16" "digit_char a = digit_char b"
  shows "a = b"
proof -
  have len: "length ''0123456789abcdef'' = 16" by simp
  show ?thesis
    using nth_eq_iff_index_eq [OF distinct_digit_chars, of a b] assms
    unfolding digit_char_def len by blast
qed

lemma digits_nonempty: "digits n \<noteq> []"
  by (subst digits.simps) simp

lemma digits_all: "\<forall>c\<in>set (digits n). is_digit c"
proof (induction n rule: digits.induct)
  case (1 n)
  show ?case
  proof (cases "n < 10")
    case True
    then show ?thesis by (subst digits.simps) (simp add: is_digit_digit_char)
  next
    case False
    with 1 show ?thesis by (subst digits.simps) (simp add: is_digit_digit_char)
  qed
qed

lemma digit_strings_unique:
  assumes "\<forall>c\<in>set xs. is_digit c" "\<forall>c\<in>set ys. is_digit c" "xs @ r = ys @ r'" "stop r" "stop r'"
  shows "xs = ys \<and> r = r'"
  using assms
proof (induction xs arbitrary: ys)
  case Nil
  show ?case
  proof (cases ys)
    case Nil
    with Nil.prems show ?thesis by simp
  next
    case (Cons y ys')
    with Nil.prems show ?thesis by (auto simp: stop_def)
  qed
next
  case (Cons x xs)
  show ?case
  proof (cases ys)
    case Nil
    with Cons.prems show ?thesis by (auto simp: stop_def)
  next
    case (Cons y ys')
    with Cons.prems Cons.IH [of ys'] show ?thesis by auto
  qed
qed

lemma digit_char_value: "d < 10 \<Longrightarrow> (of_char (digit_char d) :: nat) - 48 = d"
  using digit_char_cases [of d] by (auto simp: digit_char_def)

lemma dec_value_digits: "dec_value (digits n) = n"
proof (induction n rule: digits.induct)
  case (1 n)
  show ?case
  proof (cases "n < 10")
    case True
    then show ?thesis by (subst digits.simps) (simp add: dec_value_def digit_char_value)
  next
    case False
    with 1 have "dec_value (digits (n div 10)) = n div 10" by simp
    with False show ?thesis
      by (subst digits.simps) (simp add: dec_value_def digit_char_value)
  qed
qed

lemma digits_inj: "digits a = digits b \<Longrightarrow> a = b"
  by (metis dec_value_digits)

lemma hd_digits: "is_digit (hd (digits n))"
  using digits_all [of n] digits_nonempty [of n] by (cases "digits n") auto

lemma show_int_unique:
  assumes "show_int a @ r = show_int b @ r'" "stop r" "stop r'"
  shows "a = b \<and> r = r'"
proof -
  have minus: "\<not> is_digit CHR ''-''" by (simp add: is_digit_def)
  consider "a < 0" "b < 0" | "a < 0" "\<not> b < 0" | "\<not> a < 0" "b < 0" | "\<not> a < 0" "\<not> b < 0"
    by blast
  then show ?thesis
  proof cases
    case 1
    with assms have "digits (nat (- a)) @ r = digits (nat (- b)) @ r'"
      by (simp add: show_int_def)
    from digit_strings_unique [OF digits_all digits_all this assms(2,3)]
    have "nat (- a) = nat (- b)" "r = r'" by (auto dest: digits_inj)
    with 1 show ?thesis by simp
  next
    case 2
    with assms have "CHR ''-'' # digits (nat (- a)) @ r = digits (nat b) @ r'"
      by (simp add: show_int_def)
    then have "hd (digits (nat b)) = CHR ''-''"
      using digits_nonempty [of "nat b"] by (cases "digits (nat b)") auto
    with hd_digits [of "nat b"] minus show ?thesis by simp
  next
    case 3
    with assms have "digits (nat a) @ r = CHR ''-'' # digits (nat (- b)) @ r'"
      by (simp add: show_int_def)
    then have "hd (digits (nat a)) = CHR ''-''"
      using digits_nonempty [of "nat a"] by (cases "digits (nat a)") auto
    with hd_digits [of "nat a"] minus show ?thesis by simp
  next
    case 4
    with assms have "digits (nat a) @ r = digits (nat b) @ r'"
      by (simp add: show_int_def)
    from digit_strings_unique [OF digits_all digits_all this assms(2,3)]
    have "nat a = nat b" "r = r'" by (auto dest: digits_inj)
    with 4 show ?thesis by simp
  qed
qed

lemma of_char_nat_inj: "(of_char c :: nat) = of_char c' \<Longrightarrow> c = c'"
  by (metis char_of_char)

lemma char_code:
  "c = CHR 0x22 \<longleftrightarrow> (of_char c :: nat) = 0x22"
  "c = CHR 0x5C \<longleftrightarrow> (of_char c :: nat) = 0x5C"
proof -
  have a: "(of_char (CHR 0x22) :: nat) = 0x22" and b: "(of_char (CHR 0x5C) :: nat) = 0x5C"
    by simp_all
  show "c = CHR 0x22 \<longleftrightarrow> (of_char c :: nat) = 0x22"
    using of_char_nat_inj [of c "CHR 0x22"] a by auto
  show "c = CHR 0x5C \<longleftrightarrow> (of_char c :: nat) = 0x5C"
    using of_char_nat_inj [of c "CHR 0x5C"] b by auto
qed

lemma escape_char_plain:
  assumes "(of_char c :: nat) \<noteq> 0x22" "(of_char c :: nat) \<noteq> 0x5C" "\<not> (of_char c :: nat) < 32"
  shows "escape_char c = [c]"
  using assms by (auto simp: escape_char_def Let_def)

lemma escape_char_escaped:
  assumes "(of_char c :: nat) = 0x22 \<or> (of_char c :: nat) = 0x5C \<or> (of_char c :: nat) < 32"
  shows "\<exists>e es. escape_char c = CHR 0x5C # e # es"
  using assms by (auto simp: escape_char_def Let_def)

lemma hd_escape_char: "escape_char c \<noteq> [] \<and> hd (escape_char c) \<noteq> CHR 0x22"
proof (cases "(of_char c :: nat) = 0x22 \<or> (of_char c :: nat) = 0x5C \<or> (of_char c :: nat) < 32")
  case True
  from escape_char_escaped [OF this] show ?thesis by auto
next
  case False
  then have "escape_char c = [c]" by (simp add: escape_char_plain)
  with False show ?thesis by (simp add: char_code)
qed

lemma below_16:
  assumes "d < 16"
  shows "d = 0 \<or> d = 1 \<or> d = 2 \<or> d = 3 \<or> d = 4 \<or> d = 5 \<or> d = 6 \<or> d = 7 \<or> d = 8
       \<or> d = 9 \<or> d = 10 \<or> d = 11 \<or> d = 12 \<or> d = 13 \<or> d = 14 \<or> d = (15::nat)"
  using assms by arith

lemma hexval_digit_char: "d < 16 \<Longrightarrow> hexval (digit_char d) = d"
  using below_16 [of d] by (auto simp: hexval_def digit_char_def)

lemma decode1_escape_char: "decode1 (escape_char c @ x) = Some (of_char c, x)"
proof -
  let ?n = "of_char c :: nat"
  consider "?n = 0x22" | "?n = 0x5C" | "?n = 8" | "?n = 9" | "?n = 10" | "?n = 12" | "?n = 13"
    | "?n < 32" "?n \<noteq> 8" "?n \<noteq> 9" "?n \<noteq> 10" "?n \<noteq> 12" "?n \<noteq> 13"
    | "?n \<noteq> 0x22" "?n \<noteq> 0x5C" "\<not> ?n < 32"
    by linarith
  then show ?thesis
  proof cases
    case 8
    then have e: "escape_char c = [CHR 0x5C, CHR ''u'', CHR ''0'', CHR ''0'',
                              digit_char (?n div 16), digit_char (?n mod 16)]"
      by (simp add: escape_char_def Let_def)
    have "?n div 16 < 16" using 8(1) by simp
    then show ?thesis
      by (simp add: e decode1_def short_code_def hexval_digit_char)
  next
    case 9
    then have "escape_char c = [c]" by (rule escape_char_plain)
    with 9 show ?thesis by (simp add: decode1_def char_code)
  qed (simp_all add: escape_char_def Let_def decode1_def short_code_def)
qed

lemma escape_char_unique:
  assumes "escape_char c @ x = escape_char c' @ x'"
  shows "c = c' \<and> x = x'"
proof -
  have "decode1 (escape_char c @ x) = decode1 (escape_char c' @ x')"
    using assms by simp
  then show ?thesis
    by (auto simp: decode1_escape_char dest: of_char_nat_inj)
qed

lemma escaped_unique:
  "concat (map escape_char s) @ CHR 0x22 # r = concat (map escape_char s') @ CHR 0x22 # r'
   \<Longrightarrow> s = s' \<and> r = r'"
proof (induction s arbitrary: s')
  case Nil
  show ?case
  proof (cases s')
    case Nil
    with Nil.prems show ?thesis by simp
  next
    case (Cons c' t')
    with Nil.prems have "hd (escape_char c' @ concat (map escape_char t') @ CHR 0x22 # r') = CHR 0x22"
      by (metis append.assoc concat.simps(2) list.map(2) list.sel(1) self_append_conv2 concat.simps(1) list.map(1))
    with hd_escape_char [of c'] show ?thesis by (cases "escape_char c'") auto
  qed
next
  case (Cons c t)
  show ?case
  proof (cases s')
    case Nil
    with Cons.prems have "hd (escape_char c @ concat (map escape_char t) @ CHR 0x22 # r) = CHR 0x22"
      by simp
    with hd_escape_char [of c] show ?thesis by (cases "escape_char c") auto
  next
    case (Cons c' t')
    with Cons.prems have
      "escape_char c @ (concat (map escape_char t) @ CHR 0x22 # r)
       = escape_char c' @ (concat (map escape_char t') @ CHR 0x22 # r')"
      by simp
    from escape_char_unique [OF this] Cons.IH [of t'] Cons show ?thesis by simp
  qed
qed

lemma quote_unique: "quote s @ r = quote s' @ r' \<Longrightarrow> s = s' \<and> r = r'"
  using escaped_unique [of s r s' r'] by (simp add: quote_def)

lemma hd_quote: "quote s \<noteq> [] \<and> hd (quote s) = CHR 0x22"
  by (simp add: quote_def)

lemma serialize_text_of: "v \<noteq> JUndefined \<Longrightarrow> serialize v = Some (text_of v)"
  by (cases v) (simp_all add: text_of_def)

lemma json_value_defined: "json_value v \<Longrightarrow> v \<noteq> JUndefined"
  by auto

lemma members_json:
  "\<forall>p\<in>set ps. json_value (snd p) \<Longrightarrow>
   concat (map (\<lambda>p. case serialize (snd p) of None \<Rightarrow> []
                    | Some s \<Rightarrow> [quote (fst p) @ CHR '':'' # s]) ps) = map member ps"
proof (induction ps)
  case Nil
  show ?case by simp
next
  case (Cons p ps)
  then have "serialize (snd p) = Some (text_of (snd p))"
    by (simp add: serialize_text_of json_value_defined)
  with Cons show ?case by (simp add: member_def)
qed

lemma text_of_JArr: "text_of (JArr vs) = CHR ''['' # join (map text_of vs) @ '']''"
  by (simp add: text_of_def [abs_def])

lemma text_of_JObj:
  "json_value (JObj ps) \<Longrightarrow> text_of (JObj ps) = CHR ''{'' # join (map member ps) @ ''}''"
  by (simp add: text_of_def members_json)

lemma lead_show_int: "show_int n \<noteq> [] \<and> lead (hd (show_int n)) = 3"
proof (cases "n < 0")
  case True
  then show ?thesis by (simp add: show_int_def lead_def)
next
  case False
  then show ?thesis
    using hd_digits [of "nat n"] digits_nonempty [of "nat n"] by (simp add: show_int_def lead_def)
qed

lemma lead_text_of: "v \<noteq> JUndefined \<Longrightarrow> text_of v \<noteq> [] \<and> lead (hd (text_of v)) = tag v"
proof (cases v)
  case (JNum n)
  then show ?thesis using lead_show_int [of n] by (simp add: text_of_def)
next
  case (JStr s)
  then show ?thesis using hd_quote [of s] by (simp add: text_of_def lead_def is_digit_def)
qed (simp_all add: text_of_def lead_def is_digit_def)

lemma same_tag:
  assumes "v \<noteq> JUndefined" "v' \<noteq> JUndefined" "text_of v @ r = text_of v' @ r'"
  shows "tag v = tag v'"
proof -
  from assms(3) have "hd (text_of v) = hd (text_of v')"
    using lead_text_of [OF assms(1)] lead_text_of [OF assms(2)]
    by (metis hd_append2)
  then show ?thesis
    using lead_text_of [OF assms(1)] lead_text_of [OF assms(2)] by simp
qed

lemma join_Cons: "join (s # ss) = s @ (if ss = [] then [] else CHR '','' # join ss)"
  by (cases ss) simp_all

lemma join_unique:
  assumes elems: "\<And>x x' R R'. x \<in> set xs \<Longrightarrow> x' \<in> set xs' \<Longrightarrow> enc x @ R = enc x' @ R'
                    \<Longrightarrow> stop R \<Longrightarrow> stop R' \<Longrightarrow> x = x' \<and> R = R'"
    and first: "\<And>x. x \<in> set xs \<union> set xs' \<Longrightarrow> enc x \<noteq> [] \<and> hd (enc x) \<noteq> cl"
    and cl: "\<not> is_digit cl" "cl \<noteq> CHR '',''"
    and eq: "join (map enc xs) @ cl # r = join (map enc xs') @ cl # r'"
  shows "xs = xs' \<and> r = r'"
  using elems first eq
proof (induction xs arbitrary: xs')
  case Nil
  show ?case
  proof (cases xs')
    case Nil
    with Nil.prems(3) show ?thesis by simp
  next
    case (Cons x' t')
    with Nil.prems(2) [of x'] have f: "enc x' \<noteq> []" "hd (enc x') \<noteq> cl" by simp_all
    from Nil.prems(3) Cons have "cl # r = enc x' @ ((if t' = [] then [] else CHR '','' # join (map enc t')) @ cl # r')"
      by (simp add: join_Cons)
    with f show ?thesis by (cases "enc x'") auto
  qed
next
  case (Cons x t)
  note prems = Cons.prems and IH = Cons.IH
  have fx: "enc x \<noteq> []" "hd (enc x) \<noteq> cl" using Cons.prems(2) [of x] by simp_all
  show ?case
  proof (cases xs')
    case Nil
    from Cons.prems(3) Nil have "enc x @ ((if t = [] then [] else CHR '','' # join (map enc t)) @ cl # r) = cl # r'"
      by (simp add: join_Cons)
    with fx show ?thesis by (cases "enc x") auto
  next
    case (Cons x' t')
    note xs' = Cons
    let ?R = "(if t = [] then [] else CHR '','' # join (map enc t)) @ cl # r"
    let ?R' = "(if t' = [] then [] else CHR '','' # join (map enc t')) @ cl # r'"
    have comma: "\<not> is_digit CHR '',''" by (simp add: is_digit_def)
    have e: "enc x @ ?R = enc x' @ ?R'"
      using prems(3) xs' by (simp add: join_Cons)
    have sR: "stop ?R" "stop ?R'" using cl(1) comma by (simp_all add: stop_def)
    from prems(1) [OF _ _ e sR] xs' have x: "x = x'" and R: "?R = ?R'" by simp_all
    have "t = t' \<and> r = r'"
    proof (cases "t = []")
      case True
      show ?thesis
      proof (cases "t' = []")
        case True
        with \<open>t = []\<close> R show ?thesis by simp
      next
        case False
        with \<open>t = []\<close> R cl(2) show ?thesis by simp
      qed
    next
      case False
      show ?thesis
      proof (cases "t' = []")
        case True
        with \<open>t \<noteq> []\<close> R cl(2) show ?thesis by simp
      next
        case False
        with \<open>t \<noteq> []\<close> R have j: "join (map enc t) @ cl # r = join (map enc t') @ cl # r'" by simp
        show ?thesis
        proof (rule IH [of t'])
          fix y y' S S'
          assume "y \<in> set t" "y' \<in> set t'" "enc y @ S = enc y' @ S'" "stop S" "stop S'"
          then show "y = y' \<and> S = S'"
            using prems(1) [of y y' S S'] xs' by simp
        next
          fix y
          assume "y \<in> set t \<union> set t'"
          then show "enc y \<noteq> [] \<and> hd (enc y) \<noteq> cl"
            using prems(2) [of y] xs' by auto
        next
          show "join (map enc t) @ cl # r = join (map enc t') @ cl # r'" by (rule j)
        qed
      qed
    qed
    with x xs' show ?thesis by simp
  qed
qed

lemma stop_intros: "stop []" "\<not> is_digit c \<Longrightarrow> stop (c # r)"
  by (simp_all add: stop_def)

lemma member_unique:
  assumes IH: "\<And>v' R R'. json_value v' \<Longrightarrow> text_of (snd p) @ R = text_of v' @ R'
                 \<Longrightarrow> stop R \<Longrightarrow> stop R' \<Longrightarrow> snd p = v' \<and> R = R'"
    and p': "json_value (snd p')"
    and eq: "member p @ R = member p' @ R'" and st: "stop R" "stop R'"
  shows "p = p' \<and> R = R'"
proof -
  from eq have "quote (fst p) @ (CHR '':'' # text_of (snd p) @ R)
              = quote (fst p') @ (CHR '':'' # text_of (snd p') @ R')"
    by (simp add: member_def)
  from quote_unique [OF this] have k: "fst p = fst p'"
    and t: "text_of (snd p) @ R = text_of (snd p') @ R'" by simp_all
  from IH [OF p' t st] k show ?thesis by (simp add: prod_eq_iff)
qed

lemma hd_member: "member p \<noteq> [] \<and> hd (member p) = CHR 0x22"
  using hd_quote [of "fst p"] by (simp add: member_def)

lemma text_of_unique:
  "json_value v \<Longrightarrow> json_value v' \<Longrightarrow> text_of v @ r = text_of v' @ r' \<Longrightarrow> stop r \<Longrightarrow> stop r'
   \<Longrightarrow> v = v' \<and> r = r'"
proof (induction v arbitrary: v' r r')
  case JUndefined
  then show ?case by simp
next
  case JNull
  from same_tag [OF _ json_value_defined [OF JNull(2)] JNull(3)] have "v' = JNull"
    by (cases v') simp_all
  with JNull(3) show ?case by simp
next
  case (JBool b)
  from same_tag [OF _ json_value_defined [OF JBool(2)] JBool(3)] obtain b' where v': "v' = JBool b'"
    by (cases v') simp_all
  with JBool(3) show ?case by (cases b; cases b') (simp_all add: text_of_def)
next
  case (JNum n)
  from same_tag [OF _ json_value_defined [OF JNum(2)] JNum(3)] obtain n' where v': "v' = JNum n'"
    by (cases v') simp_all
  with JNum(3) have "show_int n @ r = show_int n' @ r'" by (simp add: text_of_def)
  from show_int_unique [OF this JNum(4,5)] v' show ?case by simp
next
  case (JStr s)
  from same_tag [OF _ json_value_defined [OF JStr(2)] JStr(3)] obtain s' where v': "v' = JStr s'"
    by (cases v') simp_all
  with JStr(3) have "quote s @ r = quote s' @ r'" by (simp add: text_of_def)
  from quote_unique [OF this] v' show ?case by simp
next
  case (JArr vs)
  from same_tag [OF _ json_value_defined [OF JArr(3)] JArr(4)] obtain vs' where v': "v' = JArr vs'"
    by (cases v') simp_all
  have eq: "join (map text_of vs) @ CHR '']'' # r = join (map text_of vs') @ CHR '']'' # r'"
    using JArr(4) v' by (simp add: text_of_JArr)
  have "vs = vs' \<and> r = r'"
  proof (rule join_unique [where enc = text_of and cl = "CHR '']''", OF _ _ _ _ eq])
    fix x x' R R'
    assume "x \<in> set vs" "x' \<in> set vs'" "text_of x @ R = text_of x' @ R'" "stop R" "stop R'"
    then show "x = x' \<and> R = R'"
      using JArr(1) [of x x' R R'] JArr(2,3) v' by simp
  next
    fix x
    assume "x \<in> set vs \<union> set vs'"
    then have d: "x \<noteq> JUndefined" using JArr(2,3) v' by auto
    have "lead CHR '']'' = 0" by (simp add: lead_def is_digit_def)
    moreover have "tag x \<noteq> 0" using d by (cases x) simp_all
    ultimately show "text_of x \<noteq> [] \<and> hd (text_of x) \<noteq> CHR '']''"
      using lead_text_of [OF d] by auto
  qed (simp_all add: is_digit_def)
  with v' show ?case by simp
next
  case (JObj ps)
  from same_tag [OF _ json_value_defined [OF JObj(3)] JObj(4)] obtain ps' where v': "v' = JObj ps'"
    by (cases v') simp_all
  have eq: "join (map member ps) @ CHR ''}'' # r = join (map member ps') @ CHR ''}'' # r'"
    using JObj(4) v' text_of_JObj [OF JObj(2)] text_of_JObj [of ps'] JObj(3) by simp
  have "ps = ps' \<and> r = r'"
  proof (rule join_unique [where enc = member and cl = "CHR ''}''", OF _ _ _ _ eq])
    fix p p' R R'
    assume p: "p \<in> set ps" and p': "p' \<in> set ps'" and e: "member p @ R = member p' @ R'"
      and st: "stop R" "stop R'"
    have jp: "json_value (snd p)" using JObj(2) p by simp
    have jp': "json_value (snd p')" using JObj(3) v' p' by simp
    show "p = p' \<and> R = R'"
    proof (rule member_unique [OF _ jp' e st])
      fix w S S'
      assume "json_value w" "text_of (snd p) @ S = text_of w @ S'" "stop S" "stop S'"
      then show "snd p = w \<and> S = S'"
        using JObj(1) [of p "snd p" w S S'] p jp by (cases p) simp
    qed
  next
    fix p
    show "member p \<noteq> [] \<and> hd (member p) \<noteq> CHR ''}''"
      using hd_member [of p] by simp
  qed (simp_all add: is_digit_def)
  with v' show ?case by simp
qed

lemma optionsString_text_of: "options \<noteq> JUndefined \<Longrightarrow> optionsString options = text_of options"
  by (simp add: optionsString_def default_options_def serialize_text_of)

lemma optionsString_inj:
  assumes "json_value a" "json_value b" "optionsString a = optionsString b"
  shows "a = b"
proof -
  have "text_of a @ [] = text_of b @ []"
    using assms by (simp add: optionsString_text_of json_value_defined)
  from text_of_unique [OF assms(1,2) this] show ?thesis by (simp add: stop_def)
qed

section \<open>FetchCache: the runs of the hook\<close>


















section \<open>FetchCache: the claims\<close>



text \<open>
  Claim C2, in the cache hit above: the entry for \<open>/a\<close> is fresh, no request is issued,
  \<open>data\<close> is the cached payload and \<open>loading\<close> is false, but \<open>error\<close> still holds
  the message of the failed request for \<open>/x\<close>, where the claim wants it to be \<open>null\<close>.
\<close>

theorem cache_hit_keeps_error:
  "snd hit_issue_x = Some req_x
   \<and> error (snd hit_failed_x) = Some ''HTTP 404 - Not Found''
   \<and> fst hit_failed_x ''/a|{}'' = Some \<lparr>entry_data = ''A'', timestamp = 0\<rparr>
   \<and> 3000 - 0 < ttl (JObj [])
   \<and> snd hit_a = None
   \<and> data (snd (fst hit_a)) = Some ''A''
   \<and> loading (snd (fst hit_a)) = False
   \<and> error (snd (fst hit_a)) = Some ''HTTP 404 - Not Found''"
  by (simp add: hit_a_def hit_failed_x_def hit_issue_x_def shared_cache_def req_x_def
      fetchNow_begin_def fetchNow_settle_def finally_block_def initial_state_def
      key_def optionsString_def default_options_def ttl_def
      thrown_def error_text_def digits_404 Let_def)

text \<open>
  Claim C3, in the refresh above. \<open>refetch\<close> removes the entry of the key and
  increments \<open>refetchIndex\<close>, and that is all it does: the generation counter and the
  three state cells are as before, so no call of \<open>fetchNow\<close> has started and no state
  change asks for a render. The effect, whose dependency array has changed, runs only
  when something else renders the component again; the claim wants \<open>refetch\<close> to force
  the new cycle.
\<close>

theorem refetch_starts_no_cycle:
  "snd refresh_issue = Some req_a
   \<and> fst refresh_loaded ''/a|{}'' = Some \<lparr>entry_data = ''A'', timestamp = 5\<rparr>
   \<and> fst refresh_done ''/a|{}'' = None
   \<and> refetchIndex (snd refresh_done) = refetchIndex (snd refresh_loaded) + 1
   \<and> fetchToken (snd refresh_done) = fetchToken (snd refresh_loaded)
   \<and> data (snd refresh_done) = data (snd refresh_loaded)
   \<and> loading (snd refresh_done) = loading (snd refresh_loaded)
   \<and> error (snd refresh_done) = error (snd refresh_loaded)"
  by (simp add: refresh_done_def refresh_loaded_def refresh_issue_def req_a_def
      refetch_def fetchNow_begin_def fetchNow_settle_def finally_block_def initial_state_def
      key_eval thrown_def Let_def)

text \<open>
  Claim C9. When a request fails with an error named \<open>AbortError\<close>, the continuation
  of \<open>fetchNow\<close> leaves the cache, \<open>data\<close> and \<open>error\<close> as they are, whatever the
  state and the generation.
\<close>

theorem cancellation_absorbed:
  "thrown out = Some err \<and> err_name err = ''AbortError'' \<longrightarrow>
     fst (fetchNow_settle req out now (cache, h)) = cache
   \<and> data (snd (fetchNow_settle req out now (cache, h))) = data h
   \<and> error (snd (fetchNow_settle req out now (cache, h))) = error h"
  by (simp add: fetchNow_settle_def finally_block_def)

theorem cancellation_absorbed_witness:
  "thrown (FetchRejected \<lparr>err_name = ''AbortError'', message = ''The user aborted a request.''\<rparr> :: string outcome)
     = Some \<lparr>err_name = ''AbortError'', message = ''The user aborted a request.''\<rparr>
   \<and> fst (fetchNow_settle req_a
        (FetchRejected \<lparr>err_name = ''AbortError'', message = ''The user aborted a request.''\<rparr>) 5
        (Map.empty, initial_state\<lparr>data := Some ''old'', loading := True, fetchToken := 1\<rparr>)) = Map.empty
   \<and> data (snd (fetchNow_settle req_a
        (FetchRejected \<lparr>err_name = ''AbortError'', message = ''The user aborted a request.''\<rparr>) 5
        (Map.empty, initial_state\<lparr>data := Some ''old'', loading := True, fetchToken := 1\<rparr>))) = Some ''old''
   \<and> error (snd (fetchNow_settle req_a
        (FetchRejected \<lparr>err_name = ''AbortError'', message = ''The user aborted a request.''\<rparr>) 5
        (Map.empty, initial_state\<lparr>data := Some ''old'', loading := True, fetchToken := 1\<rparr>))) = None"
proof -
  let ?e = "\<lparr>err_name = ''AbortError'', message = ''The user aborted a request.''\<rparr>"
  have t: "thrown (FetchRejected ?e :: string outcome) = Some ?e"
    by (simp add: thrown_def)
  from cancellation_absorbed [of "FetchRejected ?e" ?e req_a 5 Map.empty
      "initial_state\<lparr>data := Some ''old'', loading := True, fetchToken := 1\<rparr>"] t
  show ?thesis by (simp add: initial_state_def)
qed

text \<open>
  Claim C6, refuted as stated: two configurations with the same properties in a different
  order get different keys, and adding a property whose value is \<open>undefined\<close> changes
  the configuration but not the key.
\<close>

theorem key_not_canonical:
  "key ''u'' (JObj [(''method'', JStr ''GET''), (''body'', JStr ''x'')])
     \<noteq> key ''u'' (JObj [(''body'', JStr ''x''), (''method'', JStr ''GET'')])
   \<and> JObj [(''method'', JStr ''GET''), (''body'', JUndefined)] \<noteq> JObj [(''method'', JStr ''GET'')]
   \<and> key ''u'' (JObj [(''method'', JStr ''GET''), (''body'', JUndefined)])
       = key ''u'' (JObj [(''method'', JStr ''GET'')])"
  by (simp add: key_def optionsString_def default_options_def quote_def escape_char_def Let_def)

text \<open>
  Claim C6, amended. The key is a function of \<open>url\<close> and \<open>options\<close>: \<open>null\<close> for an
  empty \<open>url\<close>, else \<open>url\<close>, a bar and the JSON text of \<open>options\<close>. For one non-empty
  \<open>url\<close> two configurations have the same key exactly when their JSON texts are equal;
  two different configurations without \<open>undefined\<close> inside have different keys; a
  property whose value is \<open>undefined\<close> does not enter the key.
\<close>

theorem key_derivation:
  "key url options = (if url = [] then None else Some (url @ ''|'' @ optionsString options))
   \<and> (url \<noteq> [] \<longrightarrow>
        (key url options = key url options' \<longleftrightarrow> optionsString options = optionsString options'))
   \<and> (url \<noteq> [] \<and> json_value options \<and> json_value options' \<and> options \<noteq> options'
        \<longrightarrow> key url options \<noteq> key url options')
   \<and> key url (JObj (ps @ (k, JUndefined) # qs)) = key url (JObj (ps @ qs))"
proof (intro conjI impI)
  assume "url \<noteq> [] \<and> json_value options \<and> json_value options' \<and> options \<noteq> options'"
  then show "key url options \<noteq> key url options'"
    using optionsString_inj [of options options'] by (auto simp: key_def)
qed (simp_all add: key_def optionsString_def default_options_def)

theorem key_derivation_witness:
  "''u'' \<noteq> []
   \<and> json_value (JObj [(''method'', JStr ''GET'')])
   \<and> json_value (JObj [(''method'', JStr ''POST'')])
   \<and> JObj [(''method'', JStr ''GET'')] \<noteq> JObj [(''method'', JStr ''POST'')]
   \<and> key ''u'' (JObj [(''method'', JStr ''GET'')]) \<noteq> key ''u'' (JObj [(''method'', JStr ''POST'')])"
proof -
  have "''u'' \<noteq> [] \<and> json_value (JObj [(''method'', JStr ''GET'')])
        \<and> json_value (JObj [(''method'', JStr ''POST'')])
        \<and> JObj [(''method'', JStr ''GET'')] \<noteq> JObj [(''method'', JStr ''POST'')]"
    by simp
  then show ?thesis
    using key_derivation [of "''u''" "JObj [(''method'', JStr ''GET'')]"
        "JObj [(''method'', JStr ''POST'')]" "[]" "[]" "[]"]
    by blast
qed

end
